theory Spec2Isabelle
  imports Main "HOL-Library.Sublist"
begin

section \<open>Text and character classes\<close>

text \<open>
  The two notebooks scan log text with Python's \<^verbatim>\<open>re\<close> module. A Python string is a
  sequence of code points; the model uses \<^typ>\<open>string\<close>, so it covers text whose code points
  are below 256 (ASCII and Latin-1). The classes below are the ones \<^verbatim>\<open>re\<close> and
  \<^verbatim>\<open>str.strip\<close> use for \<^verbatim>\<open>str\<close> arguments on that range.
\<close>

definition ord :: "char \<Rightarrow> nat" where
  "ord c = of_char c"

text \<open>\<^verbatim>\<open>\s\<close> and \<^verbatim>\<open>str.isspace\<close>: tab, newline, vertical tab, form feed, carriage return,
  the four separators 28 to 31, space, NEL (133) and the no-break space (160).\<close>

definition isspace :: "char \<Rightarrow> bool" where
  "isspace c = (let n = ord c in (9 \<le> n \<and> n \<le> 13) \<or> (28 \<le> n \<and> n \<le> 32) \<or> n = 133 \<or> n = 160)"

text \<open>\<^verbatim>\<open>[0-9]\<close>; below 256 \<^verbatim>\<open>\d\<close> matches the same ten characters.\<close>

definition isdigit :: "char \<Rightarrow> bool" where
  "isdigit c = (let n = ord c in 48 \<le> n \<and> n \<le> 57)"

text \<open>\<^verbatim>\<open>\w\<close>: alphanumeric characters and the underscore. Below 256 the alphanumerics are the
  ASCII letters and digits, the Latin-1 letters, and the superscript digits and fractions.\<close>

definition isword :: "char \<Rightarrow> bool" where
  "isword c = (let n = ord c in
     (48 \<le> n \<and> n \<le> 57) \<or> (65 \<le> n \<and> n \<le> 90) \<or> n = 95 \<or> (97 \<le> n \<and> n \<le> 122) \<or>
     n = 170 \<or> n = 178 \<or> n = 179 \<or> n = 181 \<or> n = 185 \<or> n = 186 \<or>
     (188 \<le> n \<and> n \<le> 190) \<or> (192 \<le> n \<and> n \<le> 214) \<or> (216 \<le> n \<and> n \<le> 246) \<or>
     (248 \<le> n \<and> n \<le> 255))"

text \<open>\<^verbatim>\<open>str.strip()\<close> with no argument removes leading and trailing whitespace.\<close>

definition strip :: "string \<Rightarrow> string" where
  "strip s = rev (dropWhile isspace (rev (dropWhile isspace s)))"


section \<open>Regular expressions as \<^verbatim>\<open>re\<close> matches them\<close>

text \<open>
  The syntax tree of a pattern. \<open>Group n r\<close> is the capturing group number \<open>n\<close>; a
  non-capturing group \<^verbatim>\<open>(?:r)\<close> is just \<open>r\<close>.
\<close>

datatype regex =
    Chr char
  | Cls "char \<Rightarrow> bool"
  | WordB
  | Eps
  | Seq regex regex
  | Alt regex regex
  | Star regex
  | Group nat regex

text \<open>A position in the subject: the character before it (if any) and the text from it on.\<close>

type_synonym pos = "char option \<times> string"

type_synonym marks = "nat \<rightharpoonup> string"

text \<open>\<^verbatim>\<open>\b\<close>: exactly one of the two neighbouring characters is a word character; the edges of
  the text count as non-word.\<close>

definition at_boundary :: "pos \<Rightarrow> bool" where
  "at_boundary st =
     ((case fst st of None \<Rightarrow> False | Some c \<Rightarrow> isword c) \<noteq>
      (case snd st of [] \<Rightarrow> False | c # _ \<Rightarrow> isword c))"

text \<open>
  \<open>match_all r st m\<close> lists every way \<open>r\<close> can match at position \<open>st\<close>, as the position
  after the match and the groups set so far, in the order in which the backtracking
  matcher tries them: the left branch of an alternation first, one more round of a
  greedy star before leaving it. The matcher's answer is the head of the list.
  A round of a star that consumes nothing is not repeated.
\<close>

function match_all :: "regex \<Rightarrow> pos \<Rightarrow> marks \<Rightarrow> (pos \<times> marks) list" where
  "match_all (Chr c) st m =
     (case snd st of [] \<Rightarrow> [] | x # xs \<Rightarrow> if x = c then [((Some x, xs), m)] else [])"
| "match_all (Cls f) st m =
     (case snd st of [] \<Rightarrow> [] | x # xs \<Rightarrow> if f x then [((Some x, xs), m)] else [])"
| "match_all WordB st m = (if at_boundary st then [(st, m)] else [])"
| "match_all Eps st m = [(st, m)]"
| "match_all (Seq a b) st m =
     concat (map (\<lambda>(st', m'). match_all b st' m') (match_all a st m))"
| "match_all (Alt a b) st m = match_all a st m @ match_all b st m"
| "match_all (Star a) st m =
     concat (map (\<lambda>(st', m').
               if length (snd st') < length (snd st) then match_all (Star a) st' m' else [])
             (match_all a st m))
     @ [(st, m)]"
| "match_all (Group n a) st m =
     map (\<lambda>(st', m'). (st', m'(n \<mapsto> take (length (snd st) - length (snd st')) (snd st))))
       (match_all a st m)"
  by pat_completeness auto
termination
  by (relation "measures [\<lambda>(r, st, m). size r, \<lambda>(r, st, m). length (snd st)]") auto

text \<open>The pattern syntax used by the notebooks, as syntax trees.\<close>

fun lit :: "string \<Rightarrow> regex" where
  "lit [] = Eps"
| "lit (c # cs) = Seq (Chr c) (lit cs)"

text \<open>\<^verbatim>\<open>r{n}\<close>, and the greedy \<^verbatim>\<open>r{0,n}\<close> and \<^verbatim>\<open>r{lo,hi}\<close>.\<close>

fun times :: "nat \<Rightarrow> regex \<Rightarrow> regex" where
  "times 0 r = Eps"
| "times (Suc n) r = Seq r (times n r)"

fun upto :: "nat \<Rightarrow> regex \<Rightarrow> regex" where
  "upto 0 r = Eps"
| "upto (Suc n) r = Alt (Seq r (upto n r)) Eps"

definition rep :: "nat \<Rightarrow> nat \<Rightarrow> regex \<Rightarrow> regex" where
  "rep lo hi r = Seq (times lo r) (upto (hi - lo) r)"

fun ngroups :: "regex \<Rightarrow> nat" where
  "ngroups (Seq a b) = ngroups a + ngroups b"
| "ngroups (Alt a b) = ngroups a + ngroups b"
| "ngroups (Star a) = ngroups a"
| "ngroups (Group n a) = Suc (ngroups a)"
| "ngroups r = 0"

text \<open>
  The search loop shared by \<^verbatim>\<open>re.search\<close> and \<^verbatim>\<open>re.findall\<close>: the first position, from
  the left, at which the pattern matches, with the matcher's answer there. The result
  gives the position where the match starts, the position where it ends and the groups.
  With \<open>must_advance\<close> set, an empty match is refused at the first position tried; the
  flag is cleared for the later positions.
\<close>

fun search_from :: "regex \<Rightarrow> bool \<Rightarrow> pos \<Rightarrow> (pos \<times> pos \<times> marks) option" where
  "search_from r must_advance (p, []) =
     (case filter (\<lambda>(e, m). \<not> must_advance) (match_all r (p, []) Map.empty) of
        [] \<Rightarrow> None
      | (e, m) # _ \<Rightarrow> Some ((p, []), e, m))"
| "search_from r must_advance (p, x # xs) =
     (case filter (\<lambda>(e, m). \<not> must_advance \<or> length (snd e) < length (x # xs))
             (match_all r (p, x # xs) Map.empty) of
        [] \<Rightarrow> search_from r False (Some x, xs)
      | (e, m) # _ \<Rightarrow> Some ((p, x # xs), e, m))"

text \<open>The text between two positions of one subject.\<close>

definition between :: "pos \<Rightarrow> pos \<Rightarrow> string" where
  "between b e = take (length (snd b) - length (snd e)) (snd b)"

text \<open>A match object: \<^verbatim>\<open>group(0)\<close> and the numbered groups.\<close>

record match_obj =
  group0 :: string
  groups :: marks

definition re_search :: "regex \<Rightarrow> string \<Rightarrow> match_obj option" where
  "re_search r s =
     (case search_from r False (None, s) of
        None \<Rightarrow> None
      | Some (b, e, m) \<Rightarrow> Some \<lparr>group0 = between b e, groups = m\<rparr>)"

text \<open>
  \<^verbatim>\<open>re.findall\<close>: the matches from left to right, each search starting where the previous
  match ended, so matches do not overlap. After an empty match the next search starts at
  the same position with \<open>must_advance\<close> set. With no group in the pattern the result
  lists the matched texts, with one group it lists the group's text (empty when the group
  took no part in the match).
\<close>

function finditer :: "regex \<Rightarrow> bool \<Rightarrow> pos \<Rightarrow> match_obj list" where
  "finditer r must_advance st =
     (case search_from r must_advance st of
        None \<Rightarrow> []
      | Some (b, e, m) \<Rightarrow>
          \<lparr>group0 = between b e, groups = m\<rparr> #
          (if length (snd e) < length (snd st) then
             finditer r (length (snd e) = length (snd b)) e
           else if \<not> must_advance \<and> length (snd e) = length (snd st) then finditer r True e
           else []))"
  by pat_completeness auto
termination
  by (relation "measure (\<lambda>(r, adv, st). 2 * length (snd st) + (if adv then 0 else 1))") auto

definition findall :: "regex \<Rightarrow> string \<Rightarrow> string list" where
  "findall r s =
     map (\<lambda>mo. if ngroups r = 0 then group0 mo
                else (case groups mo 1 of None \<Rightarrow> [] | Some g \<Rightarrow> g))
       (finditer r False (None, s))"


section \<open>The log analysis tool: \<^verbatim>\<open>analyze_logs\<close>\<close>

text \<open>\<^verbatim>\<open>ip_pattern = r"\b(?:[0-9]{1,3}\.){3}[0-9]{1,3}\b"\<close>\<close>

definition ip_pattern :: regex where
  "ip_pattern =
     Seq WordB
       (Seq (times 3 (Seq (rep 1 3 (Cls isdigit)) (Chr (CHR ''.''))))
         (Seq (rep 1 3 (Cls isdigit)) WordB))"

text \<open>\<^verbatim>\<open>request_pattern = r'"(GET|POST|PUT|DELETE)'\<close>\<close>

definition request_pattern :: regex where
  "request_pattern =
     Seq (Chr (CHR 0x22))
       (Group 1 (Alt (lit ''GET'') (Alt (lit ''POST'') (Alt (lit ''PUT'') (lit ''DELETE'')))))"

text \<open>\<^verbatim>\<open>status_pattern = r'\s(\d{3})\s'\<close>\<close>

definition status_pattern :: regex where
  "status_pattern = Seq (Cls isspace) (Seq (Group 1 (times 3 (Cls isdigit))) (Cls isspace))"

text \<open>
  \<^verbatim>\<open>collections.Counter\<close> over a list: a dictionary from each element to the number of
  times it occurs, the keys in the order in which they were first seen. It is kept as an
  association list in that order.
\<close>

fun count_elem :: "('a \<times> nat) list \<Rightarrow> 'a \<Rightarrow> ('a \<times> nat) list" where
  "count_elem [] x = [(x, 1)]"
| "count_elem ((k, n) # t) x = (if k = x then (k, n + 1) # t else (k, n) # count_elem t x)"

definition Counter :: "'a list \<Rightarrow> ('a \<times> nat) list" where
  "Counter xs = foldl count_elem [] xs"

text \<open>
  \<^verbatim>\<open>analyze_logs\<close> reads the text of the widget \<^verbatim>\<open>log_text\<close>, scans it with the three
  patterns and counts the matches. \<^verbatim>\<open>log_text.get("1.0", tk.END)\<close> returns the widget's
  text followed by the newline that a Tk text widget keeps after its last line. The three
  counters are what the function then prints, entry by entry, into \<^verbatim>\<open>result_text\<close>; the
  model returns them.
\<close>

record counts =
  ip_count :: "(string \<times> nat) list"
  request_count :: "(string \<times> nat) list"
  status_count :: "(string \<times> nat) list"

definition text_get :: "string \<Rightarrow> string" where
  "text_get widget = widget @ [CHR 0x0A]"

definition analyze_logs :: "string \<Rightarrow> counts" where
  "analyze_logs log_text =
     (let log_content = text_get log_text;
          ips = findall ip_pattern log_content;
          requests = findall request_pattern log_content;
          statuses = findall status_pattern log_content
      in \<lparr>ip_count = Counter ips, request_count = Counter requests,
          status_count = Counter statuses\<rparr>)"


section \<open>The log parser: \<^verbatim>\<open>parse_log_file\<close>\<close>

text \<open>\<^verbatim>\<open>regex_pattern_article = r"\w*level=(warning|error)*[\w ]*[\=\"\w \.]*[fF]ailed"\<close>\<close>

definition regex_pattern_article :: regex where
  "regex_pattern_article =
     Seq (Star (Cls isword))
       (Seq (lit ''level='')
         (Seq (Star (Group 1 (Alt (lit ''warning'') (lit ''error''))))
           (Seq (Star (Cls (\<lambda>c. isword c \<or> c = CHR '' '')))
             (Seq (Star (Cls (\<lambda>c. c = CHR ''='' \<or> c = CHR 0x22 \<or> isword c \<or> c = CHR '' '' \<or>
                                   c = CHR ''.'')))
               (Seq (Cls (\<lambda>c. c = CHR ''f'' \<or> c = CHR ''F'')) (lit ''ailed''))))))"

text \<open>
  Iterating over a file opened in text mode yields its lines. With the default
  \<^verbatim>\<open>newline=None\<close> a line ends at \<^verbatim>\<open>\n\<close>, \<^verbatim>\<open>\r\n\<close> or \<^verbatim>\<open>\r\<close>, and each of these endings
  is handed over as \<^verbatim>\<open>\n\<close>; the last line may have no ending.
\<close>

fun lines_from :: "string \<Rightarrow> string \<Rightarrow> string list" where
  "lines_from cur [] = (if cur = [] then [] else [cur])"
| "lines_from cur [c] =
     (if c = CHR 0x0A \<or> c = CHR 0x0D then [cur @ [CHR 0x0A]] else [cur @ [c]])"
| "lines_from cur (c # d # cs) =
     (if c = CHR 0x0A then (cur @ [CHR 0x0A]) # lines_from [] (d # cs)
      else if c = CHR 0x0D then
        (cur @ [CHR 0x0A]) # (if d = CHR 0x0A then lines_from [] cs else lines_from [] (d # cs))
      else lines_from (cur @ [c]) (d # cs))"

definition readlines :: "string \<Rightarrow> string list" where
  "readlines content = lines_from [] content"

text \<open>
  The loop of \<^verbatim>\<open>parse_log_file\<close> over the lines of the file, with the two lists it
  appends to.
\<close>

fun parse_lines :: "string list \<Rightarrow> string list \<times> string list \<Rightarrow> string list \<times> string list" where
  "parse_lines [] (errors, warnings) = (errors, warnings)"
| "parse_lines (raw # rest) (errors, warnings) =
     (let line = strip raw in
      if line = [] then parse_lines rest (errors, warnings)
      else
        (case re_search regex_pattern_article line of
           None \<Rightarrow> parse_lines rest (errors, warnings)
         | Some result \<Rightarrow>
             (let level_type = groups result 1 in
              if level_type = Some ''error'' then parse_lines rest (errors @ [line], warnings)
              else if level_type = Some ''warning'' then
                parse_lines rest (errors, warnings @ [line])
              else parse_lines rest (errors, warnings))))"

text \<open>
  \<^verbatim>\<open>parse_log_file\<close> returns the pair \<open>(errors, warnings)\<close>. Its argument is the content
  of the file at \<^verbatim>\<open>source_file_path\<close>, \<open>None\<close> when no such file exists: the function then
  prints a message and returns the two empty lists.
\<close>

definition parse_log_file :: "string option \<Rightarrow> string list \<times> string list" where
  "parse_log_file source =
     (case source of
        None \<Rightarrow> ([], [])
      | Some content \<Rightarrow> parse_lines (readlines content) ([], []))"


section \<open>Vocabulary of the properties\<close>

text \<open>
  The value of \<^verbatim>\<open>level_type\<close> for a trimmed line: group 1 of the match of the composite
  pattern, \<open>None\<close> when the pattern does not match or the group took no part.
\<close>

definition level_type :: "string \<Rightarrow> string option" where
  "level_type line =
     (case re_search regex_pattern_article line of
        None \<Rightarrow> None
      | Some result \<Rightarrow> groups result 1)"

text \<open>The number of positions of \<open>s\<close> at which the text \<open>w\<close> occurs.\<close>

definition occurrences :: "string \<Rightarrow> string \<Rightarrow> nat" where
  "occurrences w s = length (filter (prefix w) (suffixes s))"

text \<open>
  Some \<^verbatim>\<open>level=\<close> marker of the line is followed, later in the line, by \<^verbatim>\<open>failed\<close> or
  \<^verbatim>\<open>Failed\<close>.
\<close>

fun failure_after_level :: "string \<Rightarrow> bool" where
  "failure_after_level [] = False"
| "failure_after_level (c # cs) =
     ((prefix ''level='' (c # cs) \<and>
       (sublist ''failed'' (drop 5 cs) \<or> sublist ''Failed'' (drop 5 cs))) \<or>
      failure_after_level cs)"

text \<open>
  A scan from left to right with a recogniser \<open>f\<close>: where \<open>f\<close> finds an item at the
  current position (after the character \<open>p\<close>), the item is reported and the scan goes on
  behind it, so reported items do not overlap; elsewhere the scan moves on by one
  character. An item is never empty.
\<close>

fun scan :: "(char option \<Rightarrow> string \<Rightarrow> string option) \<Rightarrow> char option \<Rightarrow> string \<Rightarrow> string list" where
  "scan f p [] = []"
| "scan f p (x # xs) =
     (case f p (x # xs) of
        None \<Rightarrow> scan f (Some x) xs
      | Some a \<Rightarrow> a # scan f (Some (last (x # a))) (drop (length a - 1) xs))"

text \<open>
  \<open>dotted n s\<close>: the text at the start of \<open>s\<close> made of \<open>n + 1\<close> groups of one to three
  digits with a dot between neighbours, each group taking all the digits found there.
\<close>

fun dotted :: "nat \<Rightarrow> string \<Rightarrow> string option" where
  "dotted 0 s =
     (let g = takeWhile isdigit s in
      if 1 \<le> length g \<and> length g \<le> 3 then Some g else None)"
| "dotted (Suc n) s =
     (let g = takeWhile isdigit s in
      if 1 \<le> length g \<and> length g \<le> 3 then
        (case drop (length g) s of
           [] \<Rightarrow> None
         | c # t \<Rightarrow> if c = CHR ''.'' then map_option (\<lambda>a. g @ c # a) (dotted n t) else None)
      else None)"

text \<open>A group of one to three digits.\<close>

definition digit_group :: "string \<Rightarrow> bool" where
  "digit_group g = (1 \<le> length g \<and> length g \<le> 3 \<and> list_all isdigit g)"

text \<open>
  An address at the start of \<open>s\<close>: four dotted groups, where neither the character before
  the address nor the character after it belongs to the class \<open>ctx\<close>.
\<close>

definition bounded_at :: "(char \<Rightarrow> bool) \<Rightarrow> char option \<Rightarrow> string \<Rightarrow> string option" where
  "bounded_at ctx p s =
     (if (case p of None \<Rightarrow> False | Some c \<Rightarrow> ctx c) then None
      else
        (case dotted 3 s of
           None \<Rightarrow> None
         | Some a \<Rightarrow>
             (case drop (length a) s of
                [] \<Rightarrow> Some a
              | c # _ \<Rightarrow> if ctx c then None else Some a)))"

text \<open>The addresses bounded by word boundaries, found by a scan from left to right.\<close>

definition addresses :: "string \<Rightarrow> string list" where
  "addresses s = scan (bounded_at isword) None s"

text \<open>
  The addresses in the words of the specification: bounded by characters that are neither
  digits nor dots.
\<close>

definition spec_addresses :: "string \<Rightarrow> string list" where
  "spec_addresses s = scan (bounded_at (\<lambda>c. isdigit c \<or> c = CHR ''.'')) None s"

text \<open>A request verb behind an opening double quote, at the start of \<open>s\<close>.\<close>

definition quoted_verb_at :: "char option \<Rightarrow> string \<Rightarrow> string option" where
  "quoted_verb_at p s =
     (if prefix (CHR 0x22 # ''GET'') s then Some (CHR 0x22 # ''GET'')
      else if prefix (CHR 0x22 # ''POST'') s then Some (CHR 0x22 # ''POST'')
      else if prefix (CHR 0x22 # ''PUT'') s then Some (CHR 0x22 # ''PUT'')
      else if prefix (CHR 0x22 # ''DELETE'') s then Some (CHR 0x22 # ''DELETE'')
      else None)"



text \<open>
  A status token at the start of \<open>s\<close>: a whitespace character, three digits and a
  whitespace character. The reported value is the three digits.
\<close>

definition status_at :: "char option \<Rightarrow> string \<Rightarrow> string option" where
  "status_at p s =
     (case s of
        a # b # c # d # e # _ \<Rightarrow>
          if isspace a \<and> isdigit b \<and> isdigit c \<and> isdigit d \<and> isspace e
          then Some [a, b, c, d, e] else None
      | _ \<Rightarrow> None)"

text \<open>The status codes found by a scan from left to right.\<close>

definition statuses :: "string \<Rightarrow> string list" where
  "statuses s = map (\<lambda>a. take 3 (tl a)) (scan status_at None s)"


text \<open>The distinct elements of a list, in the order of their first occurrence.\<close>

definition first_seen :: "'a list \<Rightarrow> 'a list" where
  "first_seen xs = rev (remdups (rev xs))"

text \<open>
  The parts of the composite pattern: the failure keyword, the two character-class
  loops before it, and everything after the \<^verbatim>\<open>level=\<close> marker.
\<close>

definition article_failed :: regex where
  "article_failed = Seq (Cls (\<lambda>c. c = CHR ''f'' \<or> c = CHR ''F'')) (lit ''ailed'')"

definition article_filler :: regex where
  "article_filler =
     Seq (Star (Cls (\<lambda>c. isword c \<or> c = CHR '' '')))
       (Seq (Star (Cls (\<lambda>c. c = CHR ''='' \<or> c = CHR 0x22 \<or> isword c \<or> c = CHR '' '' \<or>
                             c = CHR ''.'')))
         article_failed)"

definition article_tail :: regex where
  "article_tail = Seq (Star (Group 1 (Alt (lit ''warning'') (lit ''error'')))) article_filler"


section \<open>Lemmas\<close>

text \<open>
  The equations of \<open>finditer\<close> and of the star are recursive under a condition that the
  simplifier does not look at first, so they are unfolded by hand.
\<close>

declare finditer.simps [simp del]

declare match_all.simps(7) [simp del]

subsection \<open>The loop of the parser\<close>

lemma parse_lines_filter:
  "parse_lines ls (es, ws) =
     (es @ filter (\<lambda>line. level_type line = Some ''error'')
             (filter (\<lambda>line. line \<noteq> []) (map strip ls)),
      ws @ filter (\<lambda>line. level_type line = Some ''warning'')
             (filter (\<lambda>line. line \<noteq> []) (map strip ls)))"
proof (induction ls arbitrary: es ws)
  case Nil
  show ?case by simp
next
  case (Cons raw rest)
  show ?case
    by (cases "re_search regex_pattern_article (strip raw)")
      (simp_all add: Cons.IH level_type_def Let_def)
qed

lemma filter_exclusive_length:
  assumes "\<And>x. \<not> (P x \<and> Q x)"
  shows "length (filter P xs) + length (filter Q xs) = length (filter (\<lambda>x. P x \<or> Q x) xs)"
  using assms by (induction xs) auto


subsection \<open>Counter\<close>

lemma Counter_snoc: "Counter (xs @ [x]) = count_elem (Counter xs) x"
  by (simp add: Counter_def)

lemma map_of_count_elem:
  "map_of (count_elem t x) k =
     (if k = x then Some (case map_of t x of None \<Rightarrow> 1 | Some n \<Rightarrow> n + 1) else map_of t k)"
  by (induction t x rule: count_elem.induct) auto

lemma keys_count_elem:
  "map fst (count_elem t x) = (if x \<in> set (map fst t) then map fst t else map fst t @ [x])"
  by (induction t x rule: count_elem.induct) auto

lemma map_of_Counter:
  "map_of (Counter xs) v = (if count_list xs v = 0 then None else Some (count_list xs v))"
proof (induction xs arbitrary: v rule: rev_induct)
  case Nil
  show ?case by (simp add: Counter_def)
next
  case (snoc x xs)
  show ?case
    by (auto simp: Counter_snoc map_of_count_elem snoc.IH)
qed

lemma keys_Counter: "map fst (Counter xs) = rev (remdups (rev xs))"
proof (induction xs rule: rev_induct)
  case Nil
  show ?case by (simp add: Counter_def)
next
  case (snoc x xs)
  have "set (map fst (Counter xs)) = set xs"
    by (simp only: snoc.IH set_rev set_remdups)
  then show ?case
    by (simp add: Counter_snoc keys_count_elem snoc.IH del: set_map)
qed

subsection \<open>Positions only move forward\<close>

lemma match_all_length:
  "(e, m') \<in> set (match_all r st m) \<Longrightarrow> length (snd e) \<le> length (snd st)"
proof (induction r st m arbitrary: e m' rule: match_all.induct)
  case (1 c st m)
  then show ?case by (cases "snd st") (auto split: if_splits)
next
  case (2 f st m)
  then show ?case by (cases "snd st") (auto split: if_splits)
next
  case (3 st m)
  then show ?case by (auto split: if_splits)
next
  case (4 st m)
  then show ?case by simp
next
  case (5 a b st m)
  from "5.prems" obtain st1 m1 where
    a: "(st1, m1) \<in> set (match_all a st m)" and b: "(e, m') \<in> set (match_all b st1 m1)"
    by auto
  from "5.IH"(1)[OF a] have "length (snd st1) \<le> length (snd st)" .
  moreover from "5.IH"(2)[OF a refl b] have "length (snd e) \<le> length (snd st1)" .
  ultimately show ?case by simp
next
  case (6 a b st m)
  from "6.prems" have "(e, m') \<in> set (match_all a st m) \<or> (e, m') \<in> set (match_all b st m)"
    by simp
  then show ?case using "6.IH" by blast
next
  case (7 a st m)
  from "7.prems" consider
    (round) st1 m1 where "(st1, m1) \<in> set (match_all a st m)"
      "length (snd st1) < length (snd st)" "(e, m') \<in> set (match_all (Star a) st1 m1)"
    | (leave) "e = st"
    by (auto simp: match_all.simps(7)[of a st m] split: if_splits)
  then show ?case
  proof cases
    case round
    from "7.IH"(2)[OF round(1) refl round(2) round(3)] round(2) show ?thesis by simp
  next
    case leave
    then show ?thesis by simp
  qed
next
  case (8 n a st m)
  from "8.prems" obtain m0 where "(e, m0) \<in> set (match_all a st m)" by auto
  then show ?case by (rule "8.IH")
qed

lemma filter_head_mem: "filter P xs = y # ys \<Longrightarrow> y \<in> set xs"
proof -
  assume "filter P xs = y # ys"
  then have "y \<in> set (filter P xs)" by simp
  then show ?thesis by simp
qed

lemma search_from_bounds:
  "search_from r adv st = Some (b, e, m) \<Longrightarrow>
     length (snd e) \<le> length (snd b) \<and> length (snd b) \<le> length (snd st)"
proof (induction r adv st rule: search_from.induct)
  case (1 r adv p)
  show ?case
  proof (cases "filter (\<lambda>(e, m). \<not> adv) (match_all r (p, []) Map.empty)")
    case Nil
    with "1.prems" show ?thesis by simp
  next
    case (Cons em rest)
    obtain e' m'' where em: "em = (e', m'')" by (cases em)
    with Cons "1.prems" have be: "b = (p, [])" "e = e'" "m = m''" by simp_all
    have "(e', m'') \<in> set (match_all r (p, []) Map.empty)"
      using filter_head_mem[OF Cons] em by simp
    from match_all_length[OF this] be show ?thesis by simp
  qed
next
  case (2 r adv p x xs)
  show ?case
  proof (cases "filter (\<lambda>(e, m). \<not> adv \<or> length (snd e) < length (x # xs))
             (match_all r (p, x # xs) Map.empty)")
    case Nil
    with "2.prems" have "search_from r False (Some x, xs) = Some (b, e, m)" by simp
    from "2.IH"[OF Nil this] show ?thesis by simp
  next
    case (Cons em rest)
    obtain e' m'' where em: "em = (e', m'')" by (cases em)
    with Cons "2.prems" have be: "b = (p, x # xs)" "e = e'" "m = m''" by simp_all
    have "(e', m'') \<in> set (match_all r (p, x # xs) Map.empty)"
      using filter_head_mem[OF Cons] em by simp
    from match_all_length[OF this] be show ?thesis by simp
  qed
qed

subsection \<open>Scanning with a pattern that matches in at most one way\<close>

lemma finditer_skip:
  assumes "match_all r (p, x # xs) Map.empty = []"
  shows "finditer r False (p, x # xs) = finditer r False (Some x, xs)"
proof -
  from assms have sf: "search_from r False (p, x # xs) = search_from r False (Some x, xs)"
    by simp
  show ?thesis
  proof (cases "search_from r False (Some x, xs)")
    case None
    have "finditer r False (p, x # xs) = []"
      by (subst finditer.simps) (simp only: sf None option.case)
    moreover have "finditer r False (Some x, xs) = []"
      by (subst finditer.simps) (simp only: None option.case)
    ultimately show ?thesis by simp
  next
    case (Some bem)
    obtain b e m where bem: "bem = (b, e, m)" by (cases bem)
    from search_from_bounds[OF Some[unfolded bem]]
    have le: "length (snd e) \<le> length (snd b)" "length (snd b) \<le> length xs" by simp_all
    let ?next = "finditer r (length (snd e) = length (snd b)) e"
    from le have lt: "length (snd e) < length (snd (p, x # xs))" by simp
    have l: "finditer r False (p, x # xs) = \<lparr>group0 = between b e, groups = m\<rparr> # ?next"
      by (subst finditer.simps) (simp only: sf Some bem option.case prod.case lt if_True)
    have r: "finditer r False (Some x, xs) = \<lparr>group0 = between b e, groups = m\<rparr> # ?next"
    proof (cases "length (snd e) < length xs")
      case True
      then have "length (snd e) < length (snd (Some x, xs))" by simp
      then show ?thesis
        by (subst finditer.simps) (simp only: Some bem option.case prod.case if_True)
    next
      case False
      with le have eq: "length (snd e) = length xs" "length (snd e) = length (snd b)" by simp_all
      then have c: "(length (snd e) < length (snd (Some x, xs))) = False"
        "(\<not> False \<and> length (snd e) = length (snd (Some x, xs))) = True" by simp_all
      have "finditer r False (Some x, xs) =
          \<lparr>group0 = between b e, groups = m\<rparr> # finditer r True e"
        by (subst finditer.simps) (simp only: Some bem option.case prod.case c if_True if_False)
      moreover from eq(2) have "(length (snd e) = length (snd b)) = True" by simp
      ultimately show ?thesis by (simp only:)
    qed
    from l r show ?thesis by simp
  qed
qed

lemma finditer_scan:
  assumes det: "\<And>p s. match_all r (p, s) Map.empty =
            (case f p s of None \<Rightarrow> [] | Some a \<Rightarrow> [((Some (last a), drop (length a) s), M a)])"
    and item: "\<And>p s a. f p s = Some a \<Longrightarrow> a \<noteq> [] \<and> prefix a s"
  shows "finditer r False (p, s) = map (\<lambda>a. \<lparr>group0 = a, groups = M a\<rparr>) (scan f p s)"
proof (induction s arbitrary: p rule: length_induct)
  case (1 s)
  have ih: "finditer r False (q, ys) = map (\<lambda>a. \<lparr>group0 = a, groups = M a\<rparr>) (scan f q ys)"
    if "length ys < length s" for q ys
    using "1.IH" that by blast
  show ?case
  proof (cases s)
    case Nil
    have "f p [] = None"
    proof (cases "f p []")
      case (Some a)
      from item[OF this] show ?thesis by simp
    qed simp
    then have "match_all r (p, []) Map.empty = []" by (simp only: det option.case)
    then have "search_from r False (p, []) = None" by simp
    then have "finditer r False (p, []) = []"
      by (subst finditer.simps) (simp only: option.case)
    then show ?thesis unfolding Nil by simp
  next
    case (Cons x xs)
    show ?thesis
    proof (cases "f p (x # xs)")
      case None
      then have "match_all r (p, x # xs) Map.empty = []" by (simp only: det option.case)
      from finditer_skip[OF this] have "finditer r False (p, x # xs) = finditer r False (Some x, xs)" .
      also have "\<dots> = map (\<lambda>a. \<lparr>group0 = a, groups = M a\<rparr>) (scan f (Some x) xs)"
        by (rule ih) (simp add: Cons)
      also have "scan f (Some x) xs = scan f p (x # xs)"
        by (simp add: None)
      finally show ?thesis unfolding Cons .
    next
      case (Some a)
      from item[OF Some] have a: "a \<noteq> []" "prefix a (x # xs)" by simp_all
      then obtain t where t: "x # xs = a @ t" by (auto simp: prefix_def)
      from a(1) have la: "last (x # a) = last a" by simp
      from a(1) t have dr: "drop (length a - 1) xs = t"
        by (cases a) auto
      from t have "length (x # xs) = length a + length t"
        by (metis length_append)
      with a(1) have lt: "length t < length (x # xs)" by simp
      have tk: "between (p, x # xs) (Some (last a), t) = a"
        by (simp add: between_def t)
      have "match_all r (p, x # xs) Map.empty =
          [((Some (last a), drop (length a) (x # xs)), M a)]"
        by (simp only: det Some option.case)
      also have "drop (length a) (x # xs) = t" by (simp add: t)
      finally have m: "match_all r (p, x # xs) Map.empty = [((Some (last a), t), M a)]" .
      have sf: "search_from r False (p, x # xs) = Some ((p, x # xs), (Some (last a), t), M a)"
        by (simp add: m)
      from lt have ne: "(length t = length (x # xs)) = False" by simp
      have "finditer r False (p, x # xs) =
          \<lparr>group0 = a, groups = M a\<rparr> # finditer r False (Some (last a), t)"
        by (subst finditer.simps) (simp only: sf option.case prod.case tk lt snd_conv if_True ne)
      also have "finditer r False (Some (last a), t) =
          map (\<lambda>a. \<lparr>group0 = a, groups = M a\<rparr>) (scan f (Some (last a)) t)"
        by (rule ih) (use lt Cons in simp)
      also have "\<lparr>group0 = a, groups = M a\<rparr> #
          map (\<lambda>a. \<lparr>group0 = a, groups = M a\<rparr>) (scan f (Some (last a)) t) =
          map (\<lambda>a. \<lparr>group0 = a, groups = M a\<rparr>) (scan f p (x # xs))"
        by (simp only: scan.simps Some option.case la dr list.map)
      finally show ?thesis unfolding Cons .
    qed
  qed
qed

subsection \<open>Unfolding a sequence by its head\<close>

lemma match_Seq_Chr:
  "match_all (Seq (Chr c) r) (p, s) m =
     (case s of [] \<Rightarrow> [] | x # xs \<Rightarrow> if x = c then match_all r (Some x, xs) m else [])"
  by (cases s) simp_all

lemma match_Seq_Cls:
  "match_all (Seq (Cls f) r) (p, s) m =
     (case s of [] \<Rightarrow> [] | x # xs \<Rightarrow> if f x then match_all r (Some x, xs) m else [])"
  by (cases s) simp_all

lemma match_Seq_Eps: "match_all (Seq Eps r) st m = match_all r st m"
  by simp

lemma match_Seq_WordB:
  "match_all (Seq WordB r) st m = (if at_boundary st then match_all r st m else [])"
  by simp

lemma match_Seq_Alt:
  "match_all (Seq (Alt a b) r) st m = match_all (Seq a r) st m @ match_all (Seq b r) st m"
  by simp

lemma concat_map_concat_map:
  "concat (map f (concat (map g xs))) = concat (map (\<lambda>x. concat (map f (g x))) xs)"
  by (induction xs) simp_all

lemma match_Seq_assoc:
  "match_all (Seq (Seq a b) r) st m = match_all (Seq a (Seq b r)) st m"
proof -
  have "match_all (Seq (Seq a b) r) st m =
      concat (map (\<lambda>(st', m'). match_all r st' m')
        (concat (map (\<lambda>(st', m'). match_all b st' m') (match_all a st m))))"
    by simp
  also have "\<dots> =
      concat (map (\<lambda>x. concat (map (\<lambda>(st', m'). match_all r st' m')
        ((\<lambda>(st', m'). match_all b st' m') x))) (match_all a st m))"
    by (rule concat_map_concat_map)
  also have "\<dots> = concat (map (\<lambda>(st', m'). match_all (Seq b r) st' m') (match_all a st m))"
    by (rule arg_cong[where f = concat], rule map_cong) auto
  also have "\<dots> = match_all (Seq a (Seq b r)) st m"
    by (simp only: match_all.simps(5)[of a "Seq b r" st m])
  finally show ?thesis .
qed

lemma match_lit:
  "match_all (lit w) (p, s) m =
     (if prefix w s then [((if w = [] then p else Some (last w), drop (length w) s), m)] else [])"
proof (induction w arbitrary: p s)
  case Nil
  show ?case by simp
next
  case (Cons c w)
  show ?case
    by (cases s) (auto simp: Cons.IH)
qed

lemma match_Seq_lit:
  "match_all (Seq (lit w) r) (p, s) m =
     (if prefix w s then match_all r (if w = [] then p else Some (last w), drop (length w) s) m
      else [])"
  by (simp add: match_lit)

subsection \<open>The request pattern\<close>

lemma quoted_verb_at_item:
  "quoted_verb_at p s = Some a \<Longrightarrow> a \<noteq> [] \<and> prefix a s"
  by (auto simp: quoted_verb_at_def split: if_splits)

lemma match_request_pattern:
  "match_all request_pattern (p, s) Map.empty =
     (case quoted_verb_at p s of
        None \<Rightarrow> []
      | Some a \<Rightarrow> [((Some (last a), drop (length a) s), [1 \<mapsto> tl a])])"
proof (cases s)
  case Nil
  then show ?thesis by (simp add: request_pattern_def quoted_verb_at_def)
next
  case (Cons x t)
  show ?thesis
  proof (cases "x = CHR 0x22")
    case False
    then show ?thesis by (simp add: request_pattern_def quoted_verb_at_def Cons)
  next
    case True
    consider (get) u where "t = ''GET'' @ u" | (post) u where "t = ''POST'' @ u"
      | (put) u where "t = ''PUT'' @ u" | (delete) u where "t = ''DELETE'' @ u"
      | (none) "\<not> prefix ''GET'' t" "\<not> prefix ''POST'' t" "\<not> prefix ''PUT'' t"
          "\<not> prefix ''DELETE'' t"
      unfolding prefix_def by blast
    then show ?thesis
    proof cases
      case get
      then show ?thesis
        by (simp add: request_pattern_def quoted_verb_at_def Cons True match_lit del: lit.simps)
    next
      case post
      then show ?thesis
        by (simp add: request_pattern_def quoted_verb_at_def Cons True match_lit del: lit.simps)
    next
      case put
      then show ?thesis
        by (simp add: request_pattern_def quoted_verb_at_def Cons True match_lit del: lit.simps)
    next
      case delete
      then show ?thesis
        by (simp add: request_pattern_def quoted_verb_at_def Cons True match_lit del: lit.simps)
    next
      case none
      then show ?thesis
        by (simp add: request_pattern_def quoted_verb_at_def Cons True match_lit del: lit.simps)
    qed
  qed
qed

lemma findall_request_pattern:
  "findall request_pattern s = map tl (scan quoted_verb_at None s)"
proof -
  have "finditer request_pattern False (None, s) =
      map (\<lambda>a. \<lparr>group0 = a, groups = [1 \<mapsto> tl a]\<rparr>) (scan quoted_verb_at None s)"
    by (rule finditer_scan[OF match_request_pattern quoted_verb_at_item])
  moreover have "ngroups request_pattern = 1"
    by (simp add: request_pattern_def)
  ultimately show ?thesis
    by (simp add: findall_def)
qed

lemma occurrences_Nil: "occurrences (c # w) [] = 0"
  by (simp add: occurrences_def)

lemma occurrences_Cons:
  "occurrences w (x # xs) = (if prefix w (x # xs) then 1 else 0) + occurrences w xs"
  by (simp add: occurrences_def)

lemma quoted_verb_at_cases:
  "quoted_verb_at p s = Some a \<Longrightarrow>
     a = CHR 0x22 # ''GET'' \<or> a = CHR 0x22 # ''POST'' \<or> a = CHR 0x22 # ''PUT'' \<or>
     a = CHR 0x22 # ''DELETE''"
  by (auto simp: quoted_verb_at_def split: if_splits)

lemma count_quoted_verbs:
  assumes "v \<in> set [''GET'', ''POST'', ''PUT'', ''DELETE'']"
  shows "count_list (map tl (scan quoted_verb_at p s)) v = occurrences (CHR 0x22 # v) s"
proof (induction s arbitrary: p rule: length_induct)
  case (1 s)
  have ih: "count_list (map tl (scan quoted_verb_at q ys)) v = occurrences (CHR 0x22 # v) ys"
    if "length ys < length s" for q ys
    using "1.IH" that by blast
  show ?case
  proof (cases s)
    case Nil
    then show ?thesis by (simp add: occurrences_Nil)
  next
    case (Cons x t)
    show ?thesis
    proof (cases "quoted_verb_at p s")
      case None
      have "length t < length s" using Cons by simp
      from ih[OF this, of "Some x"] have
        "count_list (map tl (scan quoted_verb_at (Some x) t)) v = occurrences (CHR 0x22 # v) t" .
      moreover have "\<not> prefix (CHR 0x22 # v) (x # t)"
        using None assms unfolding Cons quoted_verb_at_def by (auto split: if_splits)
      ultimately show ?thesis
        using None by (simp add: Cons occurrences_Cons)
    next
      case (Some a)
      from quoted_verb_at_item[OF Some] obtain u where u: "s = a @ u"
        by (auto simp: prefix_def)
      have lu: "length u < length s"
        using quoted_verb_at_item[OF Some] u by (cases a) auto
      note step = ih[OF lu, of "Some (last a)"]
      from quoted_verb_at_cases[OF Some] show ?thesis
      proof (elim disjE)
        assume a: "a = CHR 0x22 # ''GET''"
        from Some step assms show ?thesis
          unfolding u a by (auto simp: occurrences_Cons)
      next
        assume a: "a = CHR 0x22 # ''POST''"
        from Some step assms show ?thesis
          unfolding u a by (auto simp: occurrences_Cons)
      next
        assume a: "a = CHR 0x22 # ''PUT''"
        from Some step assms show ?thesis
          unfolding u a by (auto simp: occurrences_Cons)
      next
        assume a: "a = CHR 0x22 # ''DELETE''"
        from Some step assms show ?thesis
          unfolding u a by (auto simp: occurrences_Cons)
      qed
    qed
  qed
qed

subsection \<open>The address pattern\<close>

lemma isdigit_isword: "isdigit c \<Longrightarrow> isword c"
  by (simp add: isdigit_def isword_def Let_def)

lemma not_isdigit_dot: "\<not> isdigit (CHR ''.'')"
  by (simp add: isdigit_def ord_def)

lemma rep13_digits:
  assumes reject: "\<And>d d' t m. isdigit d \<Longrightarrow> isdigit d' \<Longrightarrow> match_all r (Some d, d' # t) m = []"
  shows "match_all (Seq (rep 1 3 (Cls isdigit)) r) (p, s) m =
     (let g = takeWhile isdigit s in
      if 1 \<le> length g \<and> length g \<le> 3 then match_all r (Some (last g), drop (length g) s) m
      else [])"
proof (cases s)
  case Nil
  then show ?thesis by (simp add: rep_def eval_nat_numeral)
next
  case s: (Cons a s1)
  show ?thesis
  proof (cases s1)
    case Nil
    then show ?thesis by (simp add: s rep_def eval_nat_numeral)
  next
    case s1: (Cons b s2)
    show ?thesis
    proof (cases s2)
      case Nil
      then show ?thesis by (simp add: s s1 rep_def eval_nat_numeral reject)
    next
      case s2: (Cons c s3)
      show ?thesis
      proof (cases s3)
        case Nil
        then show ?thesis by (simp add: s s1 s2 rep_def eval_nat_numeral reject)
      next
        case s3: (Cons d s4)
        then show ?thesis by (simp add: s s1 s2 s3 rep_def eval_nat_numeral reject)
      qed
    qed
  qed
qed


lemma digits_split:
  "takeWhile isdigit s @ drop (length (takeWhile isdigit s)) s = s"
  by (metis dropWhile_eq_drop takeWhile_dropWhile_id)

lemma digits_first:
  assumes "1 \<le> length (takeWhile isdigit s)"
  shows "\<exists>d t. s = d # t \<and> isdigit d"
proof (cases s)
  case Nil
  with assms show ?thesis by simp
next
  case (Cons d t)
  with assms show ?thesis by (cases "isdigit d") simp_all
qed

lemma digits_last:
  assumes "1 \<le> length (takeWhile isdigit s)"
  shows "isdigit (last (takeWhile isdigit s))"
proof -
  from assms have "takeWhile isdigit s \<noteq> []" by auto
  then have "last (takeWhile isdigit s) \<in> set (takeWhile isdigit s)" by (rule last_in_set)
  then show ?thesis by (auto dest: set_takeWhileD)
qed

lemma dotted_props:
  "dotted n s = Some a \<Longrightarrow>
     a \<noteq> [] \<and> prefix a s \<and> isdigit (last a) \<and> (\<exists>d t. s = d # t \<and> isdigit d)"
proof (induction n arbitrary: s a)
  case 0
  let ?g = "takeWhile isdigit s"
  from 0 have g: "1 \<le> length ?g" "a = ?g"
    by (auto simp: Let_def split: if_splits)
  from g(1) have "?g \<noteq> []" by auto
  with g digits_first[OF g(1)] digits_last[OF g(1)] show ?case
    by (simp add: takeWhile_is_prefix)
next
  case (Suc n)
  let ?g = "takeWhile isdigit s"
  from Suc.prems obtain c t a' where
    g: "1 \<le> length ?g" and d: "drop (length ?g) s = c # t" and a': "dotted n t = Some a'"
    and a: "a = ?g @ c # a'"
    by (auto simp: Let_def split: if_splits list.splits)
  from Suc.IH[OF a'] have ih: "a' \<noteq> []" "prefix a' t" "isdigit (last a')" by simp_all
  from digits_split[of s] d have s: "s = ?g @ c # t" by simp
  have "prefix a s"
    by (subst s, simp only: a) (simp add: ih(2))
  with ih a digits_first[OF g] show ?case by simp
qed

lemma bounded_at_item: "bounded_at ctx p s = Some a \<Longrightarrow> a \<noteq> [] \<and> prefix a s"
  by (auto simp: bounded_at_def dest: dotted_props split: if_splits option.splits list.splits)

lemma match_WordB_after_digit:
  assumes "isdigit d"
  shows "match_all WordB (Some d, s) m =
     (case s of [] \<Rightarrow> [((Some d, []), m)]
      | c # t \<Rightarrow> if isword c then [] else [((Some d, c # t), m)])"
  using isdigit_isword[OF assms] by (cases s) (simp_all add: at_boundary_def)

lemma match_dotted:
  "match_all (Seq (times n (Seq (rep 1 3 (Cls isdigit)) (Chr CHR ''.'')))
       (Seq (rep 1 3 (Cls isdigit)) WordB)) (p, s) m =
     (case dotted n s of
        None \<Rightarrow> []
      | Some a \<Rightarrow>
          (case drop (length a) s of
             [] \<Rightarrow> [((Some (last a), []), m)]
           | c # t \<Rightarrow> if isword c then [] else [((Some (last a), c # t), m)]))"
proof (induction n arbitrary: p s)
  case 0
  let ?g = "takeWhile isdigit s"
  have rej: "match_all WordB (Some d, d' # t) m = []" if "isdigit d" "isdigit d'" for d d' t m
    using that by (simp add: at_boundary_def isdigit_isword)
  have "match_all (Seq (times 0 (Seq (rep 1 3 (Cls isdigit)) (Chr CHR ''.'')))
       (Seq (rep 1 3 (Cls isdigit)) WordB)) (p, s) m =
      match_all (Seq (rep 1 3 (Cls isdigit)) WordB) (p, s) m"
    by (simp only: times.simps match_Seq_Eps)
  also have "\<dots> = (if 1 \<le> length ?g \<and> length ?g \<le> 3
        then match_all WordB (Some (last ?g), drop (length ?g) s) m else [])"
    by (simp only: rep13_digits[OF rej] Let_def)
  finally have unfold: "match_all (Seq (times 0 (Seq (rep 1 3 (Cls isdigit)) (Chr CHR ''.'')))
       (Seq (rep 1 3 (Cls isdigit)) WordB)) (p, s) m =
      (if 1 \<le> length ?g \<and> length ?g \<le> 3
        then match_all WordB (Some (last ?g), drop (length ?g) s) m else [])" .
  show ?case
  proof (cases "1 \<le> length ?g \<and> length ?g \<le> 3")
    case False
    then have "dotted 0 s = None" by (auto simp: Let_def)
    with False show ?thesis unfolding unfold by (simp only: if_False option.case)
  next
    case True
    then have "dotted 0 s = Some ?g" by (auto simp: Let_def)
    moreover from True have "isdigit (last ?g)" by (simp add: digits_last)
    ultimately show ?thesis
      unfolding unfold using True
      by (simp only: if_True option.case match_WordB_after_digit simp_thms)
  qed
next
  case (Suc n)
  let ?g = "takeWhile isdigit s"
  let ?G = "Seq (rep 1 3 (Cls isdigit)) (Chr CHR ''.'')"
  let ?R = "Seq (rep 1 3 (Cls isdigit)) WordB"
  let ?X = "Seq (times n ?G) ?R"
  have rej: "match_all (Seq (Chr CHR ''.'') ?X) (Some d, d' # t) m = []"
    if "isdigit d" "isdigit d'" for d d' t m
    using that not_isdigit_dot by (auto simp: match_Seq_Chr)
  have "match_all (Seq (times (Suc n) ?G) ?R) (p, s) m =
      match_all (Seq (rep 1 3 (Cls isdigit)) (Seq (Chr CHR ''.'') ?X)) (p, s) m"
    by (simp only: times.simps match_Seq_assoc)
  also have "\<dots> = (if 1 \<le> length ?g \<and> length ?g \<le> 3
        then match_all (Seq (Chr CHR ''.'') ?X) (Some (last ?g), drop (length ?g) s) m else [])"
    by (simp only: rep13_digits[OF rej] Let_def)
  finally have unfold: "match_all (Seq (times (Suc n) ?G) ?R) (p, s) m =
      (if 1 \<le> length ?g \<and> length ?g \<le> 3
        then match_all (Seq (Chr CHR ''.'') ?X) (Some (last ?g), drop (length ?g) s) m else [])" .
  show ?case
  proof (cases "1 \<le> length ?g \<and> length ?g \<le> 3")
    case False
    then have "dotted (Suc n) s = None" by (auto simp: Let_def)
    with False show ?thesis unfolding unfold by (simp only: if_False option.case)
  next
    case g: True
    show ?thesis
    proof (cases "drop (length ?g) s")
      case Nil
      with g show ?thesis unfolding unfold by (simp add: Let_def match_Seq_Chr)
    next
      case (Cons c t)
      from digits_split[of s] Cons have s: "s = ?g @ c # t" by simp
      show ?thesis
      proof (cases "c = CHR ''.''")
        case False
        with g Cons show ?thesis unfolding unfold by (simp add: Let_def match_Seq_Chr)
      next
        case dot: True
        have step: "match_all (Seq (times (Suc n) ?G) ?R) (p, s) m = match_all ?X (Some c, t) m"
          using g Cons dot unfolding unfold by (simp add: match_Seq_Chr)
        show ?thesis
        proof (cases "dotted n t")
          case None
          with g Cons dot show ?thesis
            unfolding step Suc.IH by (simp add: Let_def)
        next
          case (Some a')
          from dotted_props[OF Some] have a': "a' \<noteq> []" by simp
          have dr: "drop (length (?g @ c # a')) s = drop (length a') t"
            by (subst s) simp
          have d: "dotted (Suc n) s = Some (?g @ c # a')"
            using g Cons dot Some by (simp add: Let_def)
          from a' have la: "last (?g @ c # a') = last a'" by simp
          show ?thesis
            unfolding step Suc.IH d by (simp only: option.case Some dr la)
        qed
      qed
    qed
  qed
qed

lemma match_ip_pattern:
  "match_all ip_pattern (p, s) Map.empty =
     (case bounded_at isword p s of
        None \<Rightarrow> []
      | Some a \<Rightarrow> [((Some (last a), drop (length a) s), Map.empty)])"
proof -
  have u: "match_all ip_pattern (p, s) Map.empty =
      (if at_boundary (p, s) then
         (case dotted 3 s of
            None \<Rightarrow> []
          | Some a \<Rightarrow>
              (case drop (length a) s of
                 [] \<Rightarrow> [((Some (last a), []), Map.empty)]
               | c # t \<Rightarrow> if isword c then [] else [((Some (last a), c # t), Map.empty)]))
       else [])"
    by (simp only: ip_pattern_def match_Seq_WordB match_dotted)
  show ?thesis
  proof (cases "dotted 3 s")
    case None
    then show ?thesis unfolding u bounded_at_def by simp
  next
    case (Some a)
    from dotted_props[OF Some] obtain d t where s: "s = d # t" "isdigit d" by auto
    then have b: "at_boundary (p, s) = (\<not> (case p of None \<Rightarrow> False | Some c \<Rightarrow> isword c))"
      by (simp add: at_boundary_def isdigit_isword)
    show ?thesis
      unfolding u bounded_at_def b Some by (cases "drop (length a) s") simp_all
  qed
qed

lemma findall_ip_pattern: "findall ip_pattern s = addresses s"
proof -
  have "finditer ip_pattern False (None, s) =
      map (\<lambda>a. \<lparr>group0 = a, groups = Map.empty\<rparr>) (scan (bounded_at isword) None s)"
    by (rule finditer_scan[OF match_ip_pattern bounded_at_item])
  moreover have "ngroups ip_pattern = 0"
    by (simp add: ip_pattern_def rep_def eval_nat_numeral)
  ultimately show ?thesis
    by (simp add: findall_def addresses_def comp_def)
qed

subsection \<open>What the address recogniser accepts\<close>

lemma takeWhile_all:
  "list_all P a \<Longrightarrow> t = [] \<or> \<not> P (hd t) \<Longrightarrow> takeWhile P (a @ t) = a"
proof (induction a)
  case Nil
  then show ?case by (cases t) auto
next
  case (Cons x a)
  then show ?case by simp
qed

lemma dotted_0_iff:
  "dotted 0 s = Some a \<longleftrightarrow>
     digit_group a \<and> (\<exists>t. s = a @ t \<and> (t = [] \<or> \<not> isdigit (hd t)))"
proof
  assume d: "dotted 0 s = Some a"
  let ?g = "takeWhile isdigit s"
  from d have g: "1 \<le> length ?g" "length ?g \<le> 3" "a = ?g"
    by (auto simp: Let_def split: if_splits)
  have "list_all isdigit ?g"
    by (auto simp: list_all_iff dest: set_takeWhileD)
  moreover have "s = ?g @ dropWhile isdigit s" by simp
  moreover have "dropWhile isdigit s = [] \<or> \<not> isdigit (hd (dropWhile isdigit s))"
    by (metis hd_dropWhile)
  ultimately show "digit_group a \<and> (\<exists>t. s = a @ t \<and> (t = [] \<or> \<not> isdigit (hd t)))"
    using g unfolding digit_group_def by blast
next
  assume "digit_group a \<and> (\<exists>t. s = a @ t \<and> (t = [] \<or> \<not> isdigit (hd t)))"
  then obtain t where a: "digit_group a" and s: "s = a @ t" and t: "t = [] \<or> \<not> isdigit (hd t)"
    by blast
  from a t have "takeWhile isdigit (a @ t) = a"
    unfolding digit_group_def by (intro takeWhile_all) simp_all
  with a show "dotted 0 s = Some a"
    unfolding s digit_group_def by (simp add: Let_def)
qed

lemma dotted_Suc_iff:
  "dotted (Suc n) s = Some a \<longleftrightarrow>
     (\<exists>g a' t. a = g @ ''.'' @ a' \<and> digit_group g \<and> s = g @ ''.'' @ t \<and> dotted n t = Some a')"
proof
  assume d: "dotted (Suc n) s = Some a"
  let ?g = "takeWhile isdigit s"
  from d obtain c t a' where
    g: "1 \<le> length ?g" "length ?g \<le> 3" and dr: "drop (length ?g) s = c # t"
    and c: "c = CHR ''.''" and a': "dotted n t = Some a'" and a: "a = ?g @ c # a'"
    by (auto simp: Let_def split: if_splits list.splits)
  have "list_all isdigit ?g"
    by (auto simp: list_all_iff dest: set_takeWhileD)
  with g have "digit_group ?g" by (simp add: digit_group_def)
  moreover from digits_split[of s] dr c have "s = ?g @ ''.'' @ t" by simp
  ultimately show "\<exists>g a' t. a = g @ ''.'' @ a' \<and> digit_group g \<and> s = g @ ''.'' @ t \<and>
      dotted n t = Some a'"
    using a c a' by (intro exI[of _ ?g] exI[of _ a'] exI[of _ t]) simp
next
  assume "\<exists>g a' t. a = g @ ''.'' @ a' \<and> digit_group g \<and> s = g @ ''.'' @ t \<and> dotted n t = Some a'"
  then obtain g a' t where a: "a = g @ ''.'' @ a'" and g: "digit_group g"
    and s: "s = g @ ''.'' @ t" and a': "dotted n t = Some a'"
    by blast
  from g have "takeWhile isdigit (g @ (''.'' @ t)) = g"
    unfolding digit_group_def by (intro takeWhile_all) (simp_all add: not_isdigit_dot)
  then have tw: "takeWhile isdigit s = g" unfolding s .
  from g show "dotted (Suc n) s = Some a"
    unfolding dotted.simps tw Let_def by (simp add: s a a' digit_group_def)
qed

lemma dotted_3_iff:
  "dotted 3 s = Some a \<longleftrightarrow>
     (\<exists>g1 g2 g3 g4 t.
        a = g1 @ ''.'' @ g2 @ ''.'' @ g3 @ ''.'' @ g4 \<and>
        digit_group g1 \<and> digit_group g2 \<and> digit_group g3 \<and> digit_group g4 \<and>
        s = a @ t \<and> (t = [] \<or> \<not> isdigit (hd t)))"
proof
  assume "dotted 3 s = Some a"
  then have "dotted (Suc (Suc (Suc 0))) s = Some a" by (simp only: numeral_3_eq_3)
  then obtain g1 a1 t1 where 1: "a = g1 @ ''.'' @ a1" "digit_group g1" "s = g1 @ ''.'' @ t1"
    and d1: "dotted (Suc (Suc 0)) t1 = Some a1"
    unfolding dotted_Suc_iff[of "Suc (Suc 0)"] by blast
  from d1 obtain g2 a2 t2 where 2: "a1 = g2 @ ''.'' @ a2" "digit_group g2" "t1 = g2 @ ''.'' @ t2"
    and d2: "dotted (Suc 0) t2 = Some a2"
    unfolding dotted_Suc_iff[of "Suc 0"] by blast
  from d2 obtain g3 a3 t3 where 3: "a2 = g3 @ ''.'' @ a3" "digit_group g3" "t2 = g3 @ ''.'' @ t3"
    and d3: "dotted 0 t3 = Some a3"
    unfolding dotted_Suc_iff[of 0] by blast
  from d3 obtain t where 4: "digit_group a3" "t3 = a3 @ t" "t = [] \<or> \<not> isdigit (hd t)"
    unfolding dotted_0_iff by blast
  have "a = g1 @ ''.'' @ g2 @ ''.'' @ g3 @ ''.'' @ a3" by (simp add: 1 2 3)
  moreover have "s = a @ t" by (simp add: 1 2 3 4)
  ultimately show "\<exists>g1 g2 g3 g4 t.
        a = g1 @ ''.'' @ g2 @ ''.'' @ g3 @ ''.'' @ g4 \<and>
        digit_group g1 \<and> digit_group g2 \<and> digit_group g3 \<and> digit_group g4 \<and>
        s = a @ t \<and> (t = [] \<or> \<not> isdigit (hd t))"
    using 1(2) 2(2) 3(2) 4(1,3) by blast
next
  assume "\<exists>g1 g2 g3 g4 t.
        a = g1 @ ''.'' @ g2 @ ''.'' @ g3 @ ''.'' @ g4 \<and>
        digit_group g1 \<and> digit_group g2 \<and> digit_group g3 \<and> digit_group g4 \<and>
        s = a @ t \<and> (t = [] \<or> \<not> isdigit (hd t))"
  then obtain g1 g2 g3 g4 t where a: "a = g1 @ ''.'' @ g2 @ ''.'' @ g3 @ ''.'' @ g4"
    and g: "digit_group g1" "digit_group g2" "digit_group g3" "digit_group g4"
    and s: "s = a @ t" and t: "t = [] \<or> \<not> isdigit (hd t)"
    by blast
  from g(4) t have "dotted 0 (g4 @ t) = Some g4"
    unfolding dotted_0_iff by blast
  with g(3) have "dotted (Suc 0) (g3 @ ''.'' @ g4 @ t) = Some (g3 @ ''.'' @ g4)"
    unfolding dotted_Suc_iff[of 0] by blast
  with g(2) have "dotted (Suc (Suc 0)) (g2 @ ''.'' @ g3 @ ''.'' @ g4 @ t)
      = Some (g2 @ ''.'' @ g3 @ ''.'' @ g4)"
    unfolding dotted_Suc_iff[of "Suc 0"] by blast
  with g(1) have "dotted (Suc (Suc (Suc 0))) (g1 @ ''.'' @ g2 @ ''.'' @ g3 @ ''.'' @ g4 @ t)
      = Some (g1 @ ''.'' @ g2 @ ''.'' @ g3 @ ''.'' @ g4)"
    unfolding dotted_Suc_iff[of "Suc (Suc 0)"] by blast
  moreover have "s = g1 @ ''.'' @ g2 @ ''.'' @ g3 @ ''.'' @ g4 @ t" by (simp add: s a)
  ultimately show "dotted 3 s = Some a"
    by (simp only: numeral_3_eq_3 a)
qed

lemma bounded_at_iff:
  assumes "\<And>c. isdigit c \<Longrightarrow> ctx c"
  shows "bounded_at ctx p s = Some a \<longleftrightarrow>
     (\<exists>g1 g2 g3 g4 t.
        a = g1 @ ''.'' @ g2 @ ''.'' @ g3 @ ''.'' @ g4 \<and>
        digit_group g1 \<and> digit_group g2 \<and> digit_group g3 \<and> digit_group g4 \<and>
        s = a @ t \<and> (p = None \<or> \<not> ctx (the p)) \<and> (t = [] \<or> \<not> ctx (hd t)))"
proof
  assume b: "bounded_at ctx p s = Some a"
  then have p: "p = None \<or> \<not> ctx (the p)"
    by (cases p) (auto simp: bounded_at_def split: if_splits)
  from b have d: "dotted 3 s = Some a"
    by (auto simp: bounded_at_def split: if_splits option.splits list.splits)
  then obtain g1 g2 g3 g4 t where a: "a = g1 @ ''.'' @ g2 @ ''.'' @ g3 @ ''.'' @ g4"
    and g: "digit_group g1" "digit_group g2" "digit_group g3" "digit_group g4"
    and s: "s = a @ t"
    unfolding dotted_3_iff by blast
  from b d s have "t = [] \<or> \<not> ctx (hd t)"
    by (cases t) (auto simp: bounded_at_def split: if_splits)
  with a g s p show "\<exists>g1 g2 g3 g4 t.
        a = g1 @ ''.'' @ g2 @ ''.'' @ g3 @ ''.'' @ g4 \<and>
        digit_group g1 \<and> digit_group g2 \<and> digit_group g3 \<and> digit_group g4 \<and>
        s = a @ t \<and> (p = None \<or> \<not> ctx (the p)) \<and> (t = [] \<or> \<not> ctx (hd t))"
    by blast
next
  assume "\<exists>g1 g2 g3 g4 t.
        a = g1 @ ''.'' @ g2 @ ''.'' @ g3 @ ''.'' @ g4 \<and>
        digit_group g1 \<and> digit_group g2 \<and> digit_group g3 \<and> digit_group g4 \<and>
        s = a @ t \<and> (p = None \<or> \<not> ctx (the p)) \<and> (t = [] \<or> \<not> ctx (hd t))"
  then obtain g1 g2 g3 g4 t where a: "a = g1 @ ''.'' @ g2 @ ''.'' @ g3 @ ''.'' @ g4"
    and g: "digit_group g1" "digit_group g2" "digit_group g3" "digit_group g4"
    and s: "s = a @ t" and p: "p = None \<or> \<not> ctx (the p)" and t: "t = [] \<or> \<not> ctx (hd t)"
    by blast
  from t assms have "t = [] \<or> \<not> isdigit (hd t)" by blast
  with a g s have d: "dotted 3 s = Some a"
    unfolding dotted_3_iff by blast
  from p have np: "\<not> (case p of None \<Rightarrow> False | Some c \<Rightarrow> ctx c)"
    by (cases p) auto
  from t show "bounded_at ctx p s = Some a"
    unfolding bounded_at_def using np d s by (cases t) auto
qed

subsection \<open>The status pattern\<close>





subsection \<open>The composite pattern: what a match implies\<close>

lemma article_split:
  "regex_pattern_article = Seq (Star (Cls isword)) (Seq (lit ''level='') article_tail)"
  by (simp add: regex_pattern_article_def article_tail_def article_filler_def article_failed_def
      del: lit.simps)

lemma match_Seq_Star_Cls_Nil:
  "match_all (Seq (Star (Cls f)) r) (p, []) m = match_all r (p, []) m"
  by (simp add: match_all.simps(7)[of "Cls f" "(p, [])" m])

lemma match_Seq_Star_Cls_Cons:
  "match_all (Seq (Star (Cls f)) r) (p, x # xs) m =
     (if f x then match_all (Seq (Star (Cls f)) r) (Some x, xs) m else []) @
     match_all r (p, x # xs) m"
  by (simp add: match_all.simps(7)[of "Cls f" "(p, x # xs)" m]
      match_all.simps(5)[of "Star (Cls f)" r "(Some x, xs)" m])

lemma match_all_suffix:
  "(e, m') \<in> set (match_all r st m) \<Longrightarrow> suffix (snd e) (snd st)"
proof (induction r st m arbitrary: e m' rule: match_all.induct)
  case (1 c st m)
  then show ?case by (cases "snd st") (auto split: if_splits simp: suffix_Cons)
next
  case (2 f st m)
  then show ?case by (cases "snd st") (auto split: if_splits simp: suffix_Cons)
next
  case (3 st m)
  then show ?case by (auto split: if_splits)
next
  case (4 st m)
  then show ?case by simp
next
  case (5 a b st m)
  from "5.prems" obtain st1 m1 where
    a: "(st1, m1) \<in> set (match_all a st m)" and b: "(e, m') \<in> set (match_all b st1 m1)"
    by auto
  from "5.IH"(1)[OF a] have "suffix (snd st1) (snd st)" .
  moreover from "5.IH"(2)[OF a refl b] have "suffix (snd e) (snd st1)" .
  ultimately show ?case by (rule suffix_order.trans[rotated])
next
  case (6 a b st m)
  from "6.prems" have "(e, m') \<in> set (match_all a st m) \<or> (e, m') \<in> set (match_all b st m)"
    by simp
  then show ?case using "6.IH" by blast
next
  case (7 a st m)
  from "7.prems" consider
    (round) st1 m1 where "(st1, m1) \<in> set (match_all a st m)"
      "length (snd st1) < length (snd st)" "(e, m') \<in> set (match_all (Star a) st1 m1)"
    | (leave) "e = st"
    by (auto simp: match_all.simps(7)[of a st m] split: if_splits)
  then show ?case
  proof cases
    case round
    from "7.IH"(1)[OF round(1)] have "suffix (snd st1) (snd st)" .
    moreover from "7.IH"(2)[OF round(1) refl round(2) round(3)] have "suffix (snd e) (snd st1)" .
    ultimately show ?thesis by (rule suffix_order.trans[rotated])
  next
    case leave
    then show ?thesis by simp
  qed
next
  case (8 n a st m)
  from "8.prems" obtain m0 where "(e, m0) \<in> set (match_all a st m)" by auto
  then show ?case by (rule "8.IH")
qed

lemma match_Seq_nonempty:
  assumes "match_all (Seq a b) st m \<noteq> []"
  obtains st1 m1 where "(st1, m1) \<in> set (match_all a st m)" "match_all b st1 m1 \<noteq> []"
proof -
  from assms obtain y where "y \<in> set (match_all (Seq a b) st m)"
    by (meson last_in_set)
  then obtain st1 m1 where "(st1, m1) \<in> set (match_all a st m)" "y \<in> set (match_all b st1 m1)"
    by auto
  then show thesis by (intro that[of st1 m1]) auto
qed

lemma suffix_prefix_sublist: "suffix t s \<Longrightarrow> prefix w t \<Longrightarrow> sublist w s"
  by (auto simp: suffix_def prefix_def sublist_def)

lemma article_failed_prefix:
  assumes "match_all article_failed (p, s) m \<noteq> []"
  shows "prefix ''failed'' s \<or> prefix ''Failed'' s"
  using assms unfolding article_failed_def
  by (cases s) (auto simp: match_Seq_Cls match_lit simp del: lit.simps split: if_splits)

lemma article_tail_failed:
  assumes "match_all article_tail (p, t) m \<noteq> []"
  shows "sublist ''failed'' t \<or> sublist ''Failed'' t"
proof -
  from assms[unfolded article_tail_def] obtain st1 m1 where 1:
    "(st1, m1) \<in> set (match_all (Star (Group 1 (Alt (lit ''warning'') (lit ''error'')))) (p, t) m)"
    "match_all article_filler st1 m1 \<noteq> []"
    by (rule match_Seq_nonempty)
  from 1(2)[unfolded article_filler_def] obtain st2 m2 where 2:
    "(st2, m2) \<in> set (match_all (Star (Cls (\<lambda>c. isword c \<or> c = CHR '' ''))) st1 m1)"
    "match_all (Seq (Star (Cls (\<lambda>c. c = CHR ''='' \<or> c = CHR 0x22 \<or> isword c \<or> c = CHR '' '' \<or>
                               c = CHR ''.''))) article_failed) st2 m2 \<noteq> []"
    by (rule match_Seq_nonempty)
  from 2(2) obtain st3 m3 where 3:
    "(st3, m3) \<in> set (match_all (Star (Cls (\<lambda>c. c = CHR ''='' \<or> c = CHR 0x22 \<or> isword c \<or>
        c = CHR '' '' \<or> c = CHR ''.''))) st2 m2)"
    "match_all article_failed st3 m3 \<noteq> []"
    by (rule match_Seq_nonempty)
  have "suffix (snd st3) (snd st2)" using 3(1) by (rule match_all_suffix)
  also have "suffix (snd st2) (snd st1)" using 2(1) by (rule match_all_suffix)
  also have "suffix (snd st1) (snd (p, t))" using 1(1) by (rule match_all_suffix)
  finally have suf: "suffix (snd st3) t" by simp
  obtain p3 s3 where st3: "st3 = (p3, s3)" by (cases st3)
  from article_failed_prefix[OF 3(2)[unfolded st3]] suf st3 show ?thesis
    by (auto intro: suffix_prefix_sublist)
qed

lemma article_unfold_Nil: "match_all regex_pattern_article (p, []) m = []"
  unfolding article_split by (simp only: match_Seq_Star_Cls_Nil match_Seq_lit) simp

lemma article_unfold_Cons:
  "match_all regex_pattern_article (p, x # xs) m =
     (if isword x then match_all regex_pattern_article (Some x, xs) m else []) @
     (if prefix ''level='' (x # xs) then match_all article_tail (Some CHR ''='', drop 5 xs) m
      else [])"
proof -
  have l1: "(if ''level='' = [] then p else Some (last ''level='')) = Some CHR ''=''" by simp
  have l2: "drop (length ''level='') (x # xs) = drop 5 xs" by (simp add: eval_nat_numeral)
  show ?thesis
    unfolding article_split by (simp only: match_Seq_Star_Cls_Cons match_Seq_lit l1 l2)
qed

lemma article_match_failure_after_level:
  "match_all regex_pattern_article (p, s) m \<noteq> [] \<Longrightarrow> failure_after_level s"
proof (induction s arbitrary: p)
  case Nil
  then show ?case by (simp add: article_unfold_Nil)
next
  case (Cons x xs)
  from Cons.prems consider
    (later) "match_all regex_pattern_article (Some x, xs) m \<noteq> []"
    | (here) "prefix ''level='' (x # xs)" "match_all article_tail (Some CHR ''='', drop 5 xs) m \<noteq> []"
    unfolding article_unfold_Cons by (auto split: if_splits)
  then show ?case
  proof cases
    case later
    from Cons.IH[OF this] show ?thesis by simp
  next
    case here
    have "failure_after_level (x # xs) =
        ((prefix ''level='' (x # xs) \<and>
          (sublist ''failed'' (drop 5 xs) \<or> sublist ''Failed'' (drop 5 xs))) \<or>
         failure_after_level xs)"
      by (rule failure_after_level.simps(2))
    with article_tail_failed[OF here(2)] here(1) show ?thesis by blast
  qed
qed

lemma search_article_failure_after_level:
  "search_from regex_pattern_article False (p, s) = Some bem \<Longrightarrow> failure_after_level s"
proof (induction s arbitrary: p)
  case Nil
  then have "match_all regex_pattern_article (p, []) Map.empty \<noteq> []"
    by (auto split: list.splits)
  from article_match_failure_after_level[OF this] show ?case .
next
  case (Cons x xs)
  show ?case
  proof (cases "match_all regex_pattern_article (p, x # xs) Map.empty = []")
    case True
    with Cons.prems have "search_from regex_pattern_article False (Some x, xs) = Some bem"
      by simp
    from Cons.IH[OF this] show ?thesis by simp
  next
    case False
    from article_match_failure_after_level[OF this] show ?thesis .
  qed
qed

lemma level_type_None:
  "\<not> failure_after_level line \<Longrightarrow> level_type line = None"
  using search_article_failure_after_level[of None line]
  by (auto simp: level_type_def re_search_def split: option.splits)

lemma failure_after_level_iff:
  "failure_after_level s \<longleftrightarrow>
     (\<exists>a b. s = a @ ''level='' @ b \<and> (sublist ''failed'' b \<or> sublist ''Failed'' b))"
proof (induction s)
  case Nil
  show ?case by simp
next
  case (Cons x xs)
  show ?case
  proof
    assume "failure_after_level (x # xs)"
    then consider
      (here) "prefix ''level='' (x # xs)" "sublist ''failed'' (drop 5 xs) \<or> sublist ''Failed'' (drop 5 xs)"
      | (later) "failure_after_level xs"
      by auto
    then show "\<exists>a b. x # xs = a @ ''level='' @ b \<and> (sublist ''failed'' b \<or> sublist ''Failed'' b)"
    proof cases
      case here
      from here(1) obtain b where b: "x # xs = ''level='' @ b" by (auto simp: prefix_def)
      then have "drop 5 xs = b" by auto
      with here(2) b show ?thesis by (intro exI[of _ "[]"] exI[of _ b]) simp
    next
      case later
      with Cons.IH obtain a b where
        "xs = a @ ''level='' @ b" "sublist ''failed'' b \<or> sublist ''Failed'' b" by blast
      then show ?thesis by (intro exI[of _ "x # a"] exI[of _ b]) simp
    qed
  next
    assume "\<exists>a b. x # xs = a @ ''level='' @ b \<and> (sublist ''failed'' b \<or> sublist ''Failed'' b)"
    then obtain a b where ab: "x # xs = a @ ''level='' @ b"
      "sublist ''failed'' b \<or> sublist ''Failed'' b" by blast
    show "failure_after_level (x # xs)"
    proof (cases a)
      case Nil
      with ab have xs: "x = CHR ''l''" "xs = ''evel='' @ b" by simp_all
      from ab(2) show ?thesis unfolding xs by simp
    next
      case (Cons y a')
      with ab have "xs = a' @ ''level='' @ b" by simp
      with ab(2) Cons.IH have "failure_after_level xs" by blast
      then show ?thesis by simp
    qed
  qed
qed

subsection \<open>The composite pattern: when a match is certain\<close>

lemma ngroups_lit: "ngroups (lit w) = 0"
  by (induction w) simp_all

lemma match_all_marks:
  "ngroups r = 0 \<Longrightarrow> (e, m') \<in> set (match_all r st m) \<Longrightarrow> m' = m"
proof (induction r st m arbitrary: e m' rule: match_all.induct)
  case (1 c st m)
  then show ?case by (cases "snd st") (auto split: if_splits)
next
  case (2 f st m)
  then show ?case by (cases "snd st") (auto split: if_splits)
next
  case (3 st m)
  then show ?case by (auto split: if_splits)
next
  case (4 st m)
  then show ?case by simp
next
  case (5 a b st m)
  from "5.prems" obtain st1 m1 where
    a: "(st1, m1) \<in> set (match_all a st m)" and b: "(e, m') \<in> set (match_all b st1 m1)"
    by auto
  from "5.prems"(1) have g: "ngroups a = 0" "ngroups b = 0" by simp_all
  from "5.IH"(1)[OF g(1) a] have "m1 = m" .
  moreover from "5.IH"(2)[OF a refl g(2) b] have "m' = m1" .
  ultimately show ?case by simp
next
  case (6 a b st m)
  from "6.prems" have "(e, m') \<in> set (match_all a st m) \<or> (e, m') \<in> set (match_all b st m)"
    by simp
  moreover from "6.prems"(1) have "ngroups a = 0" "ngroups b = 0" by simp_all
  ultimately show ?case using "6.IH" by blast
next
  case (7 a st m)
  from "7.prems"(2) consider
    (round) st1 m1 where "(st1, m1) \<in> set (match_all a st m)"
      "length (snd st1) < length (snd st)" "(e, m') \<in> set (match_all (Star a) st1 m1)"
    | (leave) "m' = m"
    by (auto simp: match_all.simps(7)[of a st m] split: if_splits)
  then show ?case
  proof cases
    case round
    from "7.prems"(1) have g: "ngroups a = 0" by simp
    from "7.IH"(1)[OF g round(1)] have "m1 = m" .
    moreover from "7.IH"(2)[OF round(1) refl round(2) "7.prems"(1) round(3)] have "m' = m1" .
    ultimately show ?thesis by simp
  next
    case leave
    then show ?thesis .
  qed
next
  case (8 n a st m)
  then show ?case by simp
qed

lemma star_cls_skip:
  assumes "match_all r st m \<noteq> []"
  shows "match_all (Seq (Star (Cls f)) r) st m \<noteq> []"
proof -
  obtain p s where st: "st = (p, s)" by (cases st)
  show ?thesis
  proof (cases s)
    case Nil
    with assms show ?thesis unfolding st by (simp only: match_Seq_Star_Cls_Nil simp_thms)
  next
    case (Cons x xs)
    with assms show ?thesis
      unfolding st by (simp only: match_Seq_Star_Cls_Cons append_is_Nil_conv simp_thms)
  qed
qed

lemma star_cls_consume:
  assumes "\<forall>c\<in>set a. f c" and "\<And>q. match_all r (q, b) m \<noteq> []"
  shows "match_all (Seq (Star (Cls f)) r) (p, a @ b) m \<noteq> []"
  using assms(1)
proof (induction a arbitrary: p)
  case Nil
  show ?case using star_cls_skip[OF assms(2)] by simp
next
  case (Cons x a)
  from Cons.prems have fx: "f x" and "\<forall>c\<in>set a. f c" by simp_all
  from Cons.IH[OF this(2)] have "match_all (Seq (Star (Cls f)) r) (Some x, a @ b) m \<noteq> []" .
  with fx show ?case
    by (simp only: append_Cons match_Seq_Star_Cls_Cons if_True append_is_Nil_conv simp_thms)
qed

lemma article_failed_matches:
  assumes "kw = ''failed'' \<or> kw = ''Failed''"
  shows "match_all article_failed (q, kw @ post) m \<noteq> []"
proof -
  have "match_all article_failed (q, f # ''ailed'' @ post) m = [((Some CHR ''d'', post), m)]"
    if "f = CHR ''f'' \<or> f = CHR ''F''" for f
    unfolding article_failed_def using that
    by (simp add: match_Seq_Cls match_lit del: lit.simps match_all.simps)
  from this[of "CHR ''f''"] this[of "CHR ''F''"] assms show ?thesis by auto
qed

lemma article_filler_matches:
  assumes "\<forall>c\<in>set mid. isword c \<or> c = CHR '' '' \<or> c = CHR ''='' \<or> c = CHR 0x22 \<or> c = CHR ''.''"
    and "kw = ''failed'' \<or> kw = ''Failed''"
  shows "match_all article_filler (p, mid @ kw @ post) m \<noteq> []"
proof -
  from assms(1) have
    "\<forall>c\<in>set mid. c = CHR ''='' \<or> c = CHR 0x22 \<or> isword c \<or> c = CHR '' '' \<or> c = CHR ''.''"
    by blast
  then have "match_all (Seq (Star (Cls (\<lambda>c. c = CHR ''='' \<or> c = CHR 0x22 \<or> isword c \<or>
      c = CHR '' '' \<or> c = CHR ''.''))) article_failed) (p, mid @ kw @ post) m \<noteq> []"
    by (rule star_cls_consume) (rule article_failed_matches[OF assms(2)])
  then show ?thesis
    unfolding article_filler_def by (rule star_cls_skip)
qed

lemma article_filler_marks:
  "(e, m') \<in> set (match_all article_filler st m) \<Longrightarrow> m' = m"
  by (rule match_all_marks[of article_filler])
    (simp_all add: article_filler_def article_failed_def ngroups_lit del: lit.simps)

lemma level_group_matches:
  "match_all (Group 1 (Alt (lit ''warning'') (lit ''error''))) (p, s) m =
     (if prefix ''warning'' s then [((Some CHR ''g'', drop 7 s), m(1 \<mapsto> ''warning''))] else []) @
     (if prefix ''error'' s then [((Some CHR ''r'', drop 5 s), m(1 \<mapsto> ''error''))] else [])"
  by (auto simp: match_lit prefix_def simp del: lit.simps)

lemma article_tail_unfold:
  assumes "lv = ''error'' \<or> lv = ''warning''"
    and "\<not> prefix ''warning'' rest" "\<not> prefix ''error'' rest"
  shows "match_all article_tail (p, lv @ rest) m =
     match_all article_filler (Some (last lv), rest) (m(1 \<mapsto> lv)) @
     match_all article_filler (p, lv @ rest) m"
proof -
  let ?G = "Group 1 (Alt (lit ''warning'') (lit ''error''))"
  have inner: "match_all (Star ?G) (q, rest) m' = [((q, rest), m')]" for q m'
    using assms(2,3)
    by (simp add: match_all.simps(7)[of ?G "(q, rest)" m'] level_group_matches
        del: lit.simps match_all.simps One_nat_def)
  have "match_all (Star ?G) (p, lv @ rest) m =
      [((Some (last lv), rest), m(1 \<mapsto> lv)), ((p, lv @ rest), m)]"
    using assms(1)
    by (auto simp: match_all.simps(7)[of ?G "(p, lv @ rest)" m] level_group_matches inner
        simp del: lit.simps match_all.simps One_nat_def)
  then show ?thesis
    unfolding article_tail_def by simp
qed

lemma article_tail_level:
  assumes "lv = ''error'' \<or> lv = ''warning''"
    and "kw = ''failed'' \<or> kw = ''Failed''"
    and "\<forall>c\<in>set mid. isword c \<or> c = CHR '' '' \<or> c = CHR ''='' \<or> c = CHR 0x22 \<or> c = CHR ''.''"
    and "\<not> prefix ''warning'' (mid @ kw @ post)" "\<not> prefix ''error'' (mid @ kw @ post)"
  shows "\<exists>e ms. match_all article_tail (p, lv @ mid @ kw @ post) Map.empty = (e, [1 \<mapsto> lv]) # ms"
proof -
  let ?first = "match_all article_filler (Some (last lv), mid @ kw @ post) [1 \<mapsto> lv]"
  from article_filler_matches[OF assms(3,2)] have "?first \<noteq> []" .
  then obtain e m' ms where f: "?first = (e, m') # ms"
    by (cases ?first) auto
  then have "(e, m') \<in> set ?first" by simp
  from article_filler_marks[OF this] have "m' = [1 \<mapsto> lv]" .
  with f show ?thesis
    unfolding article_tail_unfold[OF assms(1,4,5)] by simp
qed

lemma article_at_marker:
  "match_all regex_pattern_article (p, ''level='' @ t) m =
     match_all article_tail (Some CHR ''='', t) m"
  by (simp add: article_unfold_Cons isword_def ord_def)

lemma prefix_append_short:
  assumes "prefix w (a @ b)" and "length w \<le> length a + k"
  shows "prefix w (a @ take k b)"
proof -
  from assms(1) obtain z where eq: "a @ b = w @ z" by (auto simp: prefix_def)
  have "a @ take k b = take (length a + k) (a @ b)" by simp
  also have "\<dots> = take (length a + k) (w @ z)" by (simp only: eq)
  also have "\<dots> = w @ take (length a + k - length w) z" using assms(2) by simp
  finally show ?thesis by simp
qed

lemma no_marker_before:
  assumes "\<not> sublist ''level='' ((x # pre) @ ''level'')"
  shows "\<not> prefix ''level='' (x # pre @ ''level='' @ t)" and "\<not> sublist ''level='' (pre @ ''level'')"
proof -
  show "\<not> prefix ''level='' (x # pre @ ''level='' @ t)"
  proof
    assume "prefix ''level='' (x # pre @ ''level='' @ t)"
    then have "prefix ''level='' ((x # pre) @ (''level='' @ t))" by (simp only: append_Cons)
    then have "prefix ''level='' ((x # pre) @ take 5 (''level='' @ t))"
      by (rule prefix_append_short) simp
    moreover have "take 5 (''level='' @ t) = ''level''" by simp
    ultimately have "prefix ''level='' ((x # pre) @ ''level'')" by (simp only:)
    then have "sublist ''level='' ((x # pre) @ ''level'')" by (rule prefix_imp_sublist)
    with assms show False by blast
  qed
  show "\<not> sublist ''level='' (pre @ ''level'')"
  proof
    assume "sublist ''level='' (pre @ ''level'')"
    then have "sublist ''level='' (x # pre @ ''level'')" by (simp only: sublist_Cons_right simp_thms)
    then have "sublist ''level='' ((x # pre) @ ''level'')" by (simp only: append_Cons)
    with assms show False by blast
  qed
qed

lemma article_before_marker:
  assumes "\<not> sublist ''level='' (pre @ ''level'')"
    and "match_all article_tail (Some CHR ''='', t) Map.empty = (e, m) # ms"
  shows "match_all regex_pattern_article (p, pre @ ''level='' @ t) Map.empty = [] \<or>
     (\<exists>e' ms'. match_all regex_pattern_article (p, pre @ ''level='' @ t) Map.empty = (e', m) # ms')"
  using assms(1)
proof (induction pre arbitrary: p)
  case Nil
  show ?case using assms(2) by (simp only: append_Nil article_at_marker) blast
next
  case (Cons x pre)
  from no_marker_before(1)[OF Cons.prems, of t] no_marker_before(2)[OF Cons.prems] have
    np: "prefix ''level='' (x # pre @ ''level='' @ t) = False"
    and ns: "\<not> sublist ''level='' (pre @ ''level'')"
    by blast+
  have "match_all regex_pattern_article (p, x # (pre @ ''level='' @ t)) Map.empty =
      (if isword x then match_all regex_pattern_article (Some x, pre @ ''level='' @ t) Map.empty
       else []) @
      (if prefix ''level='' (x # pre @ ''level='' @ t)
       then match_all article_tail (Some CHR ''='', drop 5 (pre @ ''level='' @ t)) Map.empty
       else [])"
    by (rule article_unfold_Cons)
  then have "match_all regex_pattern_article (p, x # (pre @ ''level='' @ t)) Map.empty =
      (if isword x then match_all regex_pattern_article (Some x, pre @ ''level='' @ t) Map.empty
       else [])"
    by (simp only: np if_False append_Nil2)
  moreover have "(x # pre) @ ''level='' @ t = x # (pre @ ''level='' @ t)" by simp
  ultimately have "match_all regex_pattern_article (p, (x # pre) @ ''level='' @ t) Map.empty =
      (if isword x then match_all regex_pattern_article (Some x, pre @ ''level='' @ t) Map.empty
       else [])"
    by (simp only:)
  with Cons.IH[OF ns, of "Some x"] show ?case by auto
qed

lemma search_article_level:
  assumes "\<not> sublist ''level='' (pre @ ''level'')"
    and "match_all article_tail (Some CHR ''='', t) Map.empty = (e, m) # ms"
  shows "\<exists>b e'. search_from regex_pattern_article False (p, pre @ ''level='' @ t) = Some (b, e', m)"
  using assms(1)
proof (induction pre arbitrary: p)
  case Nil
  have "match_all regex_pattern_article (p, CHR ''l'' # ''evel='' @ t) Map.empty = (e, m) # ms"
    using assms(2) article_at_marker[of p t Map.empty] by simp
  then show ?case by simp
next
  case (Cons x pre)
  from no_marker_before(2)[OF Cons.prems] have
    ns: "\<not> sublist ''level='' (pre @ ''level'')" .
  from article_before_marker[OF Cons.prems assms(2), of p] show ?case
  proof
    assume "match_all regex_pattern_article (p, (x # pre) @ ''level='' @ t) Map.empty = []"
    then have "search_from regex_pattern_article False (p, (x # pre) @ ''level='' @ t) =
        search_from regex_pattern_article False (Some x, pre @ ''level='' @ t)"
      by simp
    with Cons.IH[OF ns, of "Some x"] show ?thesis by simp
  next
    assume "\<exists>e' ms'. match_all regex_pattern_article (p, (x # pre) @ ''level='' @ t) Map.empty
        = (e', m) # ms'"
    then obtain e' ms' where
      "match_all regex_pattern_article (p, x # pre @ ''level='' @ t) Map.empty = (e', m) # ms'"
      by auto
    then show ?thesis by simp
  qed
qed

lemma level_type_marker:
  assumes "\<not> sublist ''level='' (pre @ ''level'')"
    and "lv = ''error'' \<or> lv = ''warning''"
    and "kw = ''failed'' \<or> kw = ''Failed''"
    and "\<forall>c\<in>set mid. isword c \<or> c = CHR '' '' \<or> c = CHR ''='' \<or> c = CHR 0x22 \<or> c = CHR ''.''"
    and "\<not> prefix ''warning'' (mid @ kw @ post)" "\<not> prefix ''error'' (mid @ kw @ post)"
  shows "level_type (pre @ ''level='' @ lv @ mid @ kw @ post) = Some lv"
proof -
  from article_tail_level[OF assms(2,3,4,5,6), of "Some CHR ''=''"] obtain e ms where
    "match_all article_tail (Some CHR ''='', lv @ mid @ kw @ post) Map.empty = (e, [1 \<mapsto> lv]) # ms"
    by blast
  from search_article_level[OF assms(1) this, of None] obtain b e' where
    "search_from regex_pattern_article False (None, pre @ ''level='' @ lv @ mid @ kw @ post) =
      Some (b, e', [1 \<mapsto> lv])"
    by blast
  then show ?thesis
    by (simp add: level_type_def re_search_def)
qed


subsection \<open>Lines that the parser retains\<close>

text \<open>
  A line of the file whose trimmed text reads \<open>pre level=lv mid kw post\<close> is appended to the
  list named by \<open>lv\<close>, and not to the other one, when the marker is the first \<^verbatim>\<open>level=\<close> of
  the line, \<open>lv\<close> is \<^verbatim>\<open>error\<close> or \<^verbatim>\<open>warning\<close>, \<open>kw\<close> is \<^verbatim>\<open>failed\<close> or \<^verbatim>\<open>Failed\<close>, the text \<open>mid\<close>
  consists of word characters, spaces, \<^verbatim>\<open>=\<close>, double quotes and dots only, and the text behind
  the level value does not itself begin with \<^verbatim>\<open>warning\<close> or \<^verbatim>\<open>error\<close>.
\<close>

theorem failure_line_classified:
  assumes "raw \<in> set (readlines blob)"
    and "strip raw = pre @ ''level='' @ lv @ mid @ kw @ post"
    and "\<not> sublist ''level='' (pre @ ''level'')"
    and "lv = ''error'' \<or> lv = ''warning''"
    and "kw = ''failed'' \<or> kw = ''Failed''"
    and "\<forall>c\<in>set mid. isword c \<or> c = CHR '' '' \<or> c = CHR ''='' \<or> c = CHR 0x22 \<or> c = CHR ''.''"
    and "\<not> prefix ''warning'' (mid @ kw @ post)"
    and "\<not> prefix ''error'' (mid @ kw @ post)"
  shows "strip raw \<in> set (if lv = ''error'' then fst (parse_log_file (Some blob))
                           else snd (parse_log_file (Some blob))) \<and>
         strip raw \<notin> set (if lv = ''error'' then snd (parse_log_file (Some blob))
                           else fst (parse_log_file (Some blob)))"
proof -
  let ?line = "strip raw"
  have lt: "level_type ?line = Some lv"
    unfolding assms(2) by (rule level_type_marker[OF assms(3-8)])
  have "?line \<noteq> []" unfolding assms(2) by simp
  with assms(1) have "?line \<in> set (filter (\<lambda>line. line \<noteq> []) (map strip (readlines blob)))"
    by simp
  with lt assms(4) show ?thesis
    by (auto simp: parse_log_file_def parse_lines_filter)
qed

text \<open>An instance: the error line of the sample log, as the second line of a file.\<close>

theorem failure_line_classified_example:
  \<open>''time="2020-03-18T14:40:30Z" level=error msg="Database stream initialisation failed."''
     \<in> set (fst (parse_log_file (Some
       ''level=info msg="Starting"\<newline>time="2020-03-18T14:40:30Z" level=error msg="Database stream initialisation failed."\<newline>''))) \<and>
   ''time="2020-03-18T14:40:30Z" level=error msg="Database stream initialisation failed."''
     \<notin> set (snd (parse_log_file (Some
       ''level=info msg="Starting"\<newline>time="2020-03-18T14:40:30Z" level=error msg="Database stream initialisation failed."\<newline>'')))\<close>
proof -
  have 1: \<open>''time="2020-03-18T14:40:30Z" level=error msg="Database stream initialisation failed."\<newline>''
      \<in> set (readlines ''level=info msg="Starting"\<newline>time="2020-03-18T14:40:30Z" level=error msg="Database stream initialisation failed."\<newline>'')\<close>
    by (simp add: readlines_def)
  have 2: \<open>strip ''time="2020-03-18T14:40:30Z" level=error msg="Database stream initialisation failed."\<newline>''
      = ''time="2020-03-18T14:40:30Z" '' @ ''level='' @ ''error'' @ '' msg="Database stream initialisation '' @ ''failed'' @ ''."''\<close>
    by (simp add: strip_def isspace_def ord_def)
  have 3: \<open>\<not> sublist ''level='' (''time="2020-03-18T14:40:30Z" '' @ ''level'')\<close>
    by (simp add: sublist_code)
  have 6: \<open>\<forall>c\<in>set '' msg="Database stream initialisation ''.
      isword c \<or> c = CHR '' '' \<or> c = CHR ''='' \<or> c = CHR 0x22 \<or> c = CHR ''.''\<close>
    by (simp add: isword_def ord_def)
  have 7: \<open>\<not> prefix ''warning'' ('' msg="Database stream initialisation '' @ ''failed'' @ ''."'')\<close>
    and 8: \<open>\<not> prefix ''error'' ('' msg="Database stream initialisation '' @ ''failed'' @ ''."'')\<close>
    by simp_all
  from failure_line_classified[OF 1 2 3 _ _ 6 7 8] show ?thesis
    by (simp add: 2)
qed


section \<open>The claims\<close>

subsection \<open>Lines with a level marker and a failure keyword\<close>

text \<open>
  C1 does not hold of the code. The line \<^verbatim>\<open>level=error msg="disk: write failed"\<close> is an
  error line with \<^verbatim>\<open>failed\<close> in its message, the kind of line that the docstring of
  \<^verbatim>\<open>parse_log_file\<close> says is found (\<^emph>\<open>error and warning lines that indicate a failure\<close>).
  It is the only line of the file, it is its own trimmed text, and it reaches neither
  list: between the level value and the keyword the pattern's two character classes admit
  word characters, spaces, \<^verbatim>\<open>=\<close>, the double quote and the dot, and the colon stops them.
\<close>

theorem failure_line_missed:
  \<open>''level=error msg="disk: write failed"'' =
     ''level='' @ ''error'' @ '' msg="disk: write '' @ ''failed'' @ [CHR 0x22] \<and>
   readlines ''level=error msg="disk: write failed"'' = [''level=error msg="disk: write failed"''] \<and>
   strip ''level=error msg="disk: write failed"'' = ''level=error msg="disk: write failed"'' \<and>
   parse_log_file (Some ''level=error msg="disk: write failed"'') = ([], [])\<close>
  by code_simp


subsection \<open>Counting matches\<close>




subsection \<open>The number of lines\<close>

text \<open>
  C3, as stated, fails. \<^verbatim>\<open>parse_log_file\<close> returns the two lists and nothing else: a file
  of one line and a file of two lines give the same result when no line is retained, so
  the number of lines read cannot be told from the result.
\<close>

theorem line_count_counterexample:
  "parse_log_file (Some ''level=info up'') = ([], []) \<and>
   parse_log_file (Some ''level=info up\<newline>level=info down'') = ([], []) \<and>
   length (readlines ''level=info up'') = 1 \<and>
   length (readlines ''level=info up\<newline>level=info down'') = 2"
  by code_simp

text \<open>
  C3, amended. What the caller observes is the two lists: together they hold one entry for
  each non-blank line whose match has the level \<^verbatim>\<open>error\<close> or \<^verbatim>\<open>warning\<close>, which is at most the
  number of lines of the file. The lines excluded from both lists are counted nowhere.
\<close>

theorem buckets_count_retained_lines:
  "length (fst (parse_log_file (Some blob))) + length (snd (parse_log_file (Some blob))) =
     length (filter (\<lambda>line. level_type line = Some ''error'' \<or> level_type line = Some ''warning'')
       (filter (\<lambda>line. line \<noteq> []) (map strip (readlines blob)))) \<and>
   length (fst (parse_log_file (Some blob))) + length (snd (parse_log_file (Some blob)))
     \<le> length (readlines blob)"
proof -
  let ?ls = "filter (\<lambda>line. line \<noteq> []) (map strip (readlines blob))"
  have f: "fst (parse_log_file (Some blob)) = filter (\<lambda>line. level_type line = Some ''error'') ?ls"
    and s: "snd (parse_log_file (Some blob)) = filter (\<lambda>line. level_type line = Some ''warning'') ?ls"
    by (simp_all add: parse_log_file_def parse_lines_filter)
  have eq: "length (fst (parse_log_file (Some blob))) + length (snd (parse_log_file (Some blob))) =
     length (filter (\<lambda>line. level_type line = Some ''error'' \<or> level_type line = Some ''warning'') ?ls)"
    unfolding f s by (rule filter_exclusive_length) simp
  have "length (filter (\<lambda>line. level_type line = Some ''error'' \<or> level_type line = Some ''warning'') ?ls)
      \<le> length ?ls"
    by (rule length_filter_le)
  also have "\<dots> \<le> length (map strip (readlines blob))"
    by (rule length_filter_le)
  finally show ?thesis using eq by simp
qed


subsection \<open>Addresses\<close>

text \<open>
  C4, as stated, fails in both directions. In \<^verbatim>\<open>x1.2.3.4\<close> the address stands between a
  letter and the end of the line, neither a digit nor a dot, and is not counted: a letter
  is a word character, so no word boundary precedes the first digit. In \<^verbatim>\<open>1.2.3.4.5\<close> the
  text \<^verbatim>\<open>1.2.3.4\<close> is followed by a dot and is counted: a dot is not a word character.
\<close>

theorem address_context_counterexample:
  "spec_addresses (text_get ''x1.2.3.4'') = [''1.2.3.4''] \<and>
   ip_count (analyze_logs ''x1.2.3.4'') = [] \<and>
   spec_addresses (text_get ''1.2.3.4.5'') = [] \<and>
   ip_count (analyze_logs ''1.2.3.4.5'') = [(''1.2.3.4'', 1)]"
  by code_simp

text \<open>
  C4, amended. The address table counts the texts found by a scan from left to right for
  four groups of one to three digits separated by dots, where the character before and
  the character after (if any) are not word characters (letters, digits, underscore); a
  match is not searched again for further matches (\<open>addresses\<close>; what its recogniser
  accepts is stated by \<open>bounded_at_iff\<close>). The groups are not validated as numbers:
  \<^verbatim>\<open>999.999.999.999\<close> is counted as an address.
\<close>

theorem addresses_counted:
  "map_of (ip_count (analyze_logs t)) v =
     (let n = count_list (addresses (text_get t)) v in if n = 0 then None else Some n) \<and>
   map fst (ip_count (analyze_logs t)) = first_seen (addresses (text_get t)) \<and>
   ip_count (analyze_logs ''999.999.999.999'') = [(''999.999.999.999'', 1)]"
proof -
  have "ip_count (analyze_logs ''999.999.999.999'') = [(''999.999.999.999'', 1)]"
    by code_simp
  then show ?thesis
    by (simp add: analyze_logs_def Let_def map_of_Counter keys_Counter first_seen_def
        findall_ip_pattern)
qed


subsection \<open>The two lists are disjoint\<close>

text \<open>
  C5. No line text is in both the list of errors and the list of warnings.
\<close>

theorem buckets_disjoint:
  "set (fst (parse_log_file source)) \<inter> set (snd (parse_log_file source)) = {}"
  by (cases source) (auto simp: parse_log_file_def parse_lines_filter)


subsection \<open>Warnings without a failure keyword\<close>

text \<open>
  C6, as stated, fails. The line \<^verbatim>\<open>level=error x failed level=warning\<close> contains
  \<^verbatim>\<open>level=warning\<close> with no \<^verbatim>\<open>failed\<close> or \<^verbatim>\<open>Failed\<close> behind it, and it is appended to the
  list of errors: the search matches at the earlier marker \<^verbatim>\<open>level=error\<close>.
\<close>

theorem warning_marker_counterexample:
  "''level=error x failed level=warning'' = ''level=error x failed '' @ ''level=warning'' @ [] \<and>
   \<not> sublist ''failed'' [] \<and> \<not> sublist ''Failed'' [] \<and>
   parse_log_file (Some ''level=error x failed level=warning'') =
     ([''level=error x failed level=warning''], [])"
  by code_simp

text \<open>
  C6, amended. A line in which no \<^verbatim>\<open>level=\<close> marker is followed, later in the line, by
  \<^verbatim>\<open>failed\<close> or \<^verbatim>\<open>Failed\<close> is in neither list; so is a line whose only level marker is
  \<^verbatim>\<open>level=warning\<close> with no failure keyword behind it.
\<close>

theorem no_failure_after_level_excluded:
  assumes "\<And>a b. line = a @ ''level='' @ b \<Longrightarrow> \<not> sublist ''failed'' b \<and> \<not> sublist ''Failed'' b"
  shows "line \<notin> set (fst (parse_log_file source)) \<and> line \<notin> set (snd (parse_log_file source))"
proof -
  from assms have "\<not> failure_after_level line"
    unfolding failure_after_level_iff by blast
  then have "level_type line = None" by (rule level_type_None)
  then show ?thesis
    by (cases source) (auto simp: parse_log_file_def parse_lines_filter)
qed

text \<open>
  C6, witness: the sample line
  \<^verbatim>\<open>time="2020-03-18T14:40:40Z" level=warning msg="Archiving data source: old_records_2019"\<close>
  is in neither list.
\<close>

theorem no_failure_after_level_excluded_witness:
  \<open>''time="2020-03-18T14:40:40Z" level=warning msg="Archiving data source: old_records_2019"''
     \<notin> set (fst (parse_log_file (Some
       ''time="2020-03-18T14:40:40Z" level=warning msg="Archiving data source: old_records_2019"''))) \<and>
   ''time="2020-03-18T14:40:40Z" level=warning msg="Archiving data source: old_records_2019"''
     \<notin> set (snd (parse_log_file (Some
       ''time="2020-03-18T14:40:40Z" level=warning msg="Archiving data source: old_records_2019"'')))\<close>
proof (rule no_failure_after_level_excluded)
  fix a b
  assume eq: \<open>''time="2020-03-18T14:40:40Z" level=warning msg="Archiving data source: old_records_2019"''
      = a @ ''level='' @ b\<close>
  have \<open>\<not> failure_after_level
      ''time="2020-03-18T14:40:40Z" level=warning msg="Archiving data source: old_records_2019"''\<close>
    by (simp add: sublist_code)
  with eq show "\<not> sublist ''failed'' b \<and> \<not> sublist ''Failed'' b"
    unfolding failure_after_level_iff by blast
qed


subsection \<open>The access-log sample\<close>

text \<open>
  C7, as stated, fails: in the three lines \<^verbatim>\<open>GET /a HTTP/1.1" 200\<close>,
  \<^verbatim>\<open>POST /b HTTP/1.1" 404\<close>, \<^verbatim>\<open>GET /c HTTP/1.1" 200\<close> no verb stands behind a double quote,
  so no verb is counted, whether or not the last line ends with a newline.
\<close>

theorem access_sample_counterexample:
  \<open>request_count (analyze_logs
      ''GET /a HTTP/1.1" 200\<newline>POST /b HTTP/1.1" 404\<newline>GET /c HTTP/1.1" 200'') = [] \<and>
    request_count (analyze_logs
      ''GET /a HTTP/1.1" 200\<newline>POST /b HTTP/1.1" 404\<newline>GET /c HTTP/1.1" 200\<newline>'') = [] \<and>
    findall request_pattern
      ''GET /a HTTP/1.1" 200\<newline>POST /b HTTP/1.1" 404\<newline>GET /c HTTP/1.1" 200\<newline>'' = []\<close>
  by code_simp

text \<open>
  C7, amended. When each request opens with its double quote, the verb counts are
  GET: 2, POST: 1 and the status counts 200: 2, 404: 1, whether or not the last line ends
  with a newline (the text read from the widget always does). For the three lines as the
  claim gives them, the status counts are the same and the verb counter is empty.
\<close>

theorem access_sample_counts:
  \<open>analyze_logs ''"GET /a HTTP/1.1" 200\<newline>"POST /b HTTP/1.1" 404\<newline>"GET /c HTTP/1.1" 200''
     = \<lparr>ip_count = [], request_count = [(''GET'', 2), (''POST'', 1)],
         status_count = [(''200'', 2), (''404'', 1)]\<rparr> \<and>
   analyze_logs ''"GET /a HTTP/1.1" 200\<newline>"POST /b HTTP/1.1" 404\<newline>"GET /c HTTP/1.1" 200\<newline>''
     = \<lparr>ip_count = [], request_count = [(''GET'', 2), (''POST'', 1)],
         status_count = [(''200'', 2), (''404'', 1)]\<rparr> \<and>
   analyze_logs ''GET /a HTTP/1.1" 200\<newline>POST /b HTTP/1.1" 404\<newline>GET /c HTTP/1.1" 200''
     = \<lparr>ip_count = [], request_count = [],
         status_count = [(''200'', 2), (''404'', 1)]\<rparr>\<close>
  by code_simp


subsection \<open>Empty input\<close>

text \<open>
  C8. On the empty text \<^verbatim>\<open>analyze_logs\<close> produces three empty counters, also when the
  scanned text is empty itself rather than the widget's lone newline, and
  \<^verbatim>\<open>parse_log_file\<close> returns two empty lists for an empty file (and for a missing one).
  The model has no error value: none of the statements executed on the way can raise on
  text, so the results below are reached.
\<close>

theorem empty_input_empty_results:
  "analyze_logs [] = \<lparr>ip_count = [], request_count = [], status_count = []\<rparr> \<and>
   findall ip_pattern [] = [] \<and> findall request_pattern [] = [] \<and>
   findall status_pattern [] = [] \<and>
   parse_log_file (Some []) = ([], []) \<and> parse_log_file None = ([], [])"
  by code_simp


subsection \<open>Request verbs\<close>

text \<open>
  C9. For each of the four verbs, the verb's count is the number of positions of the text
  at which a double quote is immediately followed by the verb's letters, whatever comes
  after them; the verb is absent from the table when there is no such position.
\<close>

theorem quoted_verbs_counted:
  assumes "v \<in> set [''GET'', ''POST'', ''PUT'', ''DELETE'']"
  shows "map_of (request_count (analyze_logs t)) v =
     (let n = occurrences (CHR 0x22 # v) (text_get t) in if n = 0 then None else Some n)"
  by (simp add: analyze_logs_def Let_def map_of_Counter findall_request_pattern
      count_quoted_verbs[OF assms])

text \<open>
  C9, witness: \<^verbatim>\<open>"GETAWAY\<close> counts for GET, as \<^verbatim>\<open>"GET /a\<close> does.
\<close>

theorem quoted_verbs_counted_witness:
  \<open>map_of (request_count (analyze_logs ''x "GETAWAY "GET /a'')) ''GET'' = Some 2\<close>
proof -
  have \<open>''GET'' \<in> set [''GET'', ''POST'', ''PUT'', ''DELETE'']\<close> by simp
  from quoted_verbs_counted[OF this, of \<open>''x "GETAWAY "GET /a''\<close>] show ?thesis
    by (simp add: occurrences_def text_get_def)
qed


subsection \<open>The order of the two lists\<close>

text \<open>
  C10. The list of errors is the list of the trimmed, non-blank lines of the file whose
  match of the composite pattern has the level \<^verbatim>\<open>error\<close>, in the order of the file and with
  every occurrence of a repeated line kept; likewise the list of warnings for the level
  \<^verbatim>\<open>warning\<close>.
\<close>

theorem buckets_preserve_order:
  "fst (parse_log_file (Some blob)) =
     filter (\<lambda>line. level_type line = Some ''error'')
       (filter (\<lambda>line. line \<noteq> []) (map strip (readlines blob))) \<and>
   snd (parse_log_file (Some blob)) =
     filter (\<lambda>line. level_type line = Some ''warning'')
       (filter (\<lambda>line. line \<noteq> []) (map strip (readlines blob)))"
  by (simp add: parse_log_file_def parse_lines_filter)


end
